theory Spec2Isabelle
  imports Complex_Main "HOL-Library.AList"
begin

section \<open>Python values used by \<^verbatim>\<open>bfs_keyword_search.py\<close>\<close>

text \<open>
  Strings are \<^typ>\<open>string\<close>, one \<^typ>\<open>char\<close> per character.  A \<^typ>\<open>char\<close> has
  eight bits, so the strings of the model are the Python strings over the code
  points U+0000 to U+00FF, and every statement below is about URLs, keywords and
  labels over these code points.  \<open>is_upper\<close>, \<open>is_lower\<close>, \<open>is_digit\<close>,
  \<open>is_alpha\<close> and \<open>is_alnum\<close> are the ASCII classes, which is how the libraries
  test the characters of a scheme and of an escape.  \<open>lower_char\<close> is what
  \<^verbatim>\<open>str.lower\<close> does to one character: besides \<^verbatim>\<open>A\<close> to \<^verbatim>\<open>Z\<close> it maps the capital
  letters U+00C0 to U+00DE, the multiplication sign U+00D7 apart, to the letter 32
  places above; no character of the range changes into more than one character or
  leaves the range.  Exceptions are values: \<open>ValueError\<close> is what
  \<^verbatim>\<open>urllib.parse\<close> raises, \<open>ReError\<close> is \<^verbatim>\<open>re.error\<close>,
  \<open>IndexError\<close> is an index out of range.
\<close>

datatype py_error = ValueError | ReError | IndexError

definition is_upper :: "char \<Rightarrow> bool" where
  "is_upper c = (65 \<le> (of_char c :: nat) \<and> (of_char c :: nat) \<le> 90)"

definition is_lower :: "char \<Rightarrow> bool" where
  "is_lower c = (97 \<le> (of_char c :: nat) \<and> (of_char c :: nat) \<le> 122)"

definition is_digit :: "char \<Rightarrow> bool" where
  "is_digit c = (48 \<le> (of_char c :: nat) \<and> (of_char c :: nat) \<le> 57)"

definition is_alpha :: "char \<Rightarrow> bool" where
  "is_alpha c = (is_upper c \<or> is_lower c)"

definition is_alnum :: "char \<Rightarrow> bool" where
  "is_alnum c = (is_alpha c \<or> is_digit c)"

definition lower_char :: "char \<Rightarrow> char" where
  "lower_char c =
     (if is_upper c \<or>
         (0xC0 \<le> (of_char c :: nat) \<and> (of_char c :: nat) \<le> 0xDE \<and> (of_char c :: nat) \<noteq> 0xD7)
      then char_of ((of_char c :: nat) + 32) else c)"

text \<open>\<^verbatim>\<open>s.lower()\<close>\<close>

definition lower :: "string \<Rightarrow> string" where
  "lower s = map lower_char s"

text \<open>\<^verbatim>\<open>s.startswith(p)\<close>\<close>

fun startswith :: "string \<Rightarrow> string \<Rightarrow> bool" where
  "startswith s [] = True"
| "startswith [] (p # ps) = False"
| "startswith (c # cs) (p # ps) = (c = p \<and> startswith cs ps)"

text \<open>\<^verbatim>\<open>s.endswith(p)\<close>\<close>

definition endswith :: "string \<Rightarrow> string \<Rightarrow> bool" where
  "endswith s p = startswith (rev s) (rev p)"

text \<open>\<^verbatim>\<open>sub in s\<close>\<close>

fun contains :: "string \<Rightarrow> string \<Rightarrow> bool" where
  "contains [] sub = (sub = [])"
| "contains (c # cs) sub = (startswith (c # cs) sub \<or> contains cs sub)"

definition backslash :: char where
  "backslash = CHR 0x5C"

definition quote :: char where
  "quote = CHR 0x27"

section \<open>The keyword pattern: \<^verbatim>\<open>re.escape\<close>, \<^verbatim>\<open>re.compile\<close>, \<^verbatim>\<open>search\<close>, \<^verbatim>\<open>fullmatch\<close>\<close>

text \<open>
  \<^verbatim>\<open>re.escape\<close> puts a backslash before each of the characters
  \<^verbatim>\<open>()[]{}?*+-|^$\.&~#\<close>, space, tab, newline, carriage return, vertical tab and
  form feed, and leaves every other character alone.
\<close>

definition escape_special :: "char list" where
  "escape_special = ''()[]{}?*+-|^$.&~# '' @
     [backslash, CHR 0x09, CHR 0x0A, CHR 0x0D, CHR 0x0B, CHR 0x0C]"

definition re_escape :: "string \<Rightarrow> string" where
  "re_escape pattern =
     concat (map (\<lambda>c. if c \<in> set escape_special then [backslash, c] else [c]) pattern)"

text \<open>
  The pattern parser, as far as the program can reach it.  A compiled pattern is a
  sequence of items: a literal character, the word boundary \<^verbatim>\<open>\b\<close>, or \<open>Other\<close>
  for a token that the parser reads as pattern syntax (a character of
  \<^verbatim>\<open>.\[{()*+?^$|\<close>, a character class such as \<^verbatim>\<open>\d\<close>, a numeric escape).  The
  parser raises on a pattern that ends in a lone backslash and on a backslash before
  an ASCII letter that names no escape.  What an \<open>Other\<close> item matches is left out:
  \<open>keyword_regex_items\<close> below shows that the pattern of the program never holds one.
\<close>

datatype re_item = Literal char | AtBoundary | Other string

definition SPECIAL_CHARS :: "char list" where
  "SPECIAL_CHARS = ''.[{()*+?^$|'' @ [backslash]"

definition sre_escape :: "char \<Rightarrow> py_error + re_item" where
  "sre_escape e =
     (if e = CHR ''b'' then Inr AtBoundary
      else if e \<in> set ''ABdDsSwWZ'' then Inr (Other [backslash, e])
      else if e = CHR ''a'' then Inr (Literal (CHR 0x07))
      else if e = CHR ''f'' then Inr (Literal (CHR 0x0C))
      else if e = CHR ''n'' then Inr (Literal (CHR 0x0A))
      else if e = CHR ''r'' then Inr (Literal (CHR 0x0D))
      else if e = CHR ''t'' then Inr (Literal (CHR 0x09))
      else if e = CHR ''v'' then Inr (Literal (CHR 0x0B))
      else if e \<in> set ''xuUN'' \<or> is_digit e then Inr (Other [backslash, e])
      else if is_alpha e then Inl ReError
      else Inr (Literal e))"

definition cons_item :: "py_error + re_item \<Rightarrow> py_error + re_item list \<Rightarrow> py_error + re_item list" where
  "cons_item i r =
     (case i of Inl e \<Rightarrow> Inl e
      | Inr x \<Rightarrow> (case r of Inl e \<Rightarrow> Inl e | Inr xs \<Rightarrow> Inr (x # xs)))"

fun sre_parse :: "string \<Rightarrow> py_error + re_item list" where
  "sre_parse [] = Inr []"
| "sre_parse (c # cs) =
     (if c = backslash then
        (case cs of
           [] \<Rightarrow> Inl ReError
         | e # rest \<Rightarrow> cons_item (sre_escape e) (sre_parse rest))
      else cons_item (Inr (if c \<in> set SPECIAL_CHARS then Other [c] else Literal c))
             (sre_parse cs))"

text \<open>\<^verbatim>\<open>re.compile(r'\b' + re.escape(keyword) + r'\b', re.IGNORECASE)\<close>\<close>

definition keyword_regex :: "string \<Rightarrow> py_error + re_item list" where
  "keyword_regex keyword =
     sre_parse ([backslash, CHR ''b''] @ re_escape keyword @ [backslash, CHR ''b''])"

text \<open>
  Matching, with \<^verbatim>\<open>re.IGNORECASE\<close>.  \<open>match_items\<close> runs the items from one position:
  \<open>prev\<close> is the character before the position, the string is the rest of the
  subject.  \<^verbatim>\<open>\b\<close> holds where exactly one of the two neighbours is a word character.
  The pattern is a \<^verbatim>\<open>str\<close> pattern, so a word character is one that Unicode counts
  as alphanumeric, or the underscore: up to U+00FF these are the ASCII letters and
  digits, U+00AA, U+00B2, U+00B3, U+00B5, U+00B9, U+00BA, U+00BC to U+00BE, and
  U+00C0 to U+00FF without the signs U+00D7 and U+00F7.  Two characters up to U+00FF
  match without regard to case exactly when \<^verbatim>\<open>str.lower\<close> makes them equal.
\<close>

definition is_word :: "char \<Rightarrow> bool" where
  "is_word c =
     (is_alnum c \<or> c = CHR ''_'' \<or>
      (of_char c :: nat) \<in> set [0xAA, 0xB2, 0xB3, 0xB5, 0xB9, 0xBA, 0xBC, 0xBD, 0xBE] \<or>
      (0xC0 \<le> (of_char c :: nat) \<and> (of_char c :: nat) \<noteq> 0xD7 \<and> (of_char c :: nat) \<noteq> 0xF7))"

definition at_boundary :: "char option \<Rightarrow> string \<Rightarrow> bool" where
  "at_boundary prev rest =
     ((case prev of None \<Rightarrow> False | Some p \<Rightarrow> is_word p) \<noteq>
      (case rest of [] \<Rightarrow> False | c # _ \<Rightarrow> is_word c))"

fun match_items :: "re_item list \<Rightarrow> char option \<Rightarrow> string \<Rightarrow> (char option \<times> string) option" where
  "match_items [] prev s = Some (prev, s)"
| "match_items (Literal c # items) prev s =
     (case s of [] \<Rightarrow> None
      | x # xs \<Rightarrow> if lower_char x = lower_char c then match_items items (Some x) xs else None)"
| "match_items (AtBoundary # items) prev s =
     (if at_boundary prev s then match_items items prev s else None)"
| "match_items (Other t # items) prev s = None"

fun search_from :: "re_item list \<Rightarrow> char option \<Rightarrow> string \<Rightarrow> bool" where
  "search_from items prev [] = (match_items items prev [] \<noteq> None)"
| "search_from items prev (c # cs) =
     (match_items items prev (c # cs) \<noteq> None \<or> search_from items (Some c) cs)"

text \<open>\<^verbatim>\<open>bool(regex.search(s))\<close>\<close>

definition re_search :: "re_item list \<Rightarrow> string \<Rightarrow> bool" where
  "re_search items s = search_from items None s"

text \<open>\<^verbatim>\<open>bool(regex.fullmatch(s))\<close>\<close>

definition re_fullmatch :: "re_item list \<Rightarrow> string \<Rightarrow> bool" where
  "re_fullmatch items s =
     (case match_items items None s of Some (_, []) \<Rightarrow> True | _ \<Rightarrow> False)"

section \<open>\<^verbatim>\<open>urllib.parse.urlparse\<close>\<close>

text \<open>
  The six components of a parsed URL.  \<open>urlparse\<close> follows the library function
  step by step (CPython 3.12): strip leading control characters and spaces, delete
  tab, carriage return and newline, split off a scheme, a netloc after \<^verbatim>\<open>//\<close>, the
  fragment, the query and the parameters of the last path segment.  It raises
  \<open>ValueError\<close> on a netloc with one square bracket but not the other.  The check of
  a netloc that has both brackets belongs to the library's address parser and is the
  parameter \<open>bracketed_ok\<close>.  The library also rejects a netloc in which compatibility
  normalization brings up one of \<^verbatim>\<open>/?#@:\<close>; no code point up to U+00FF normalizes to
  a string that holds one of them, so this check never fires on the strings of the
  model.
\<close>

record parse_result =
  pr_scheme :: string
  pr_netloc :: string
  pr_path :: string
  pr_params :: string
  pr_query :: string
  pr_fragment :: string

definition scheme_char :: "char \<Rightarrow> bool" where
  "scheme_char c = (is_alnum c \<or> c \<in> set ''+-.'')"

definition uses_params :: "string list" where
  "uses_params = ['''', ''ftp'', ''hdl'', ''prospero'', ''http'', ''imap'', ''https'', ''shttp'',
     ''rtsp'', ''rtsps'', ''rtspu'', ''sip'', ''sips'', ''mms'', ''sftp'', ''tel'']"

text \<open>\<^verbatim>\<open>s.split(c, 1)\<close> for a string that contains \<open>c\<close>: the parts before and after the first \<open>c\<close>.\<close>

definition split_first :: "char \<Rightarrow> string \<Rightarrow> string \<times> string" where
  "split_first c s = (takeWhile (\<lambda>x. x \<noteq> c) s, drop 1 (dropWhile (\<lambda>x. x \<noteq> c) s))"

definition split_scheme :: "string \<Rightarrow> string \<times> string" where
  "split_scheme url =
     (let i = length (takeWhile (\<lambda>x. x \<noteq> CHR '':'') url)
      in if CHR '':'' \<in> set url \<and> 0 < i \<and> is_alpha (hd url) \<and> list_all scheme_char (take i url)
         then (lower (take i url), drop (Suc i) url)
         else ('''', url))"

definition splitnetloc :: "string \<Rightarrow> string \<times> string" where
  "splitnetloc url =
     (takeWhile (\<lambda>x. x \<notin> set ''/?#'') (drop 2 url),
      dropWhile (\<lambda>x. x \<notin> set ''/?#'') (drop 2 url))"

definition splitparams :: "string \<Rightarrow> string \<times> string" where
  "splitparams url =
     (if CHR ''/'' \<in> set url then
        (let last_seg = rev (takeWhile (\<lambda>x. x \<noteq> CHR ''/'') (rev url));
             head = take (length url - length last_seg) url
         in if CHR '';'' \<in> set last_seg
            then (head @ fst (split_first (CHR '';'') last_seg), snd (split_first (CHR '';'') last_seg))
            else (url, ''''))
      else split_first (CHR '';'') url)"

definition urlparse :: "(string \<Rightarrow> bool) \<Rightarrow> string \<Rightarrow> py_error + parse_result" where
  "urlparse bracketed_ok url0 =
     (let url1 = dropWhile (\<lambda>c. (of_char c :: nat) \<le> 32) url0;
          url2 = filter (\<lambda>c. c \<notin> set [CHR 0x09, CHR 0x0D, CHR 0x0A]) url1;
          (scheme, url3) = split_scheme url2;
          (netloc, url4) = (if take 2 url3 = ''//'' then splitnetloc url3 else ('''', url3))
      in if (CHR ''['' \<in> set netloc \<and> CHR '']'' \<notin> set netloc) \<or>
            (CHR '']'' \<in> set netloc \<and> CHR ''['' \<notin> set netloc) then Inl ValueError
         else if CHR ''['' \<in> set netloc \<and> CHR '']'' \<in> set netloc \<and> \<not> bracketed_ok netloc
         then Inl ValueError
         else
           (let (url5, fragment) =
                  (if CHR ''#'' \<in> set url4 then split_first (CHR ''#'') url4 else (url4, ''''));
                (url6, query) =
                  (if CHR ''?'' \<in> set url5 then split_first (CHR ''?'') url5 else (url5, ''''));
                (url7, params) =
                  (if scheme \<in> set uses_params \<and> CHR '';'' \<in> set url6
                   then splitparams url6 else (url6, ''''))
            in Inr \<lparr>pr_scheme = scheme, pr_netloc = netloc, pr_path = url7,
                     pr_params = params, pr_query = query, pr_fragment = fragment\<rparr>))"

section \<open>Dictionaries and loops\<close>

text \<open>
  A Python \<^verbatim>\<open>dict\<close> is an association list in insertion order: \<open>map_of\<close> looks a
  key up, \<open>AList.update\<close> is the assignment \<^verbatim>\<open>d[k] = v\<close> (a present key keeps its
  place and takes the new value, an absent one goes to the end).  A \<^verbatim>\<open>for\<close> loop
  whose body may raise is \<open>fold_err\<close>: it stops at the first error.
\<close>

fun fold_err :: "('a \<Rightarrow> 's \<Rightarrow> 'e + 's) \<Rightarrow> 'a list \<Rightarrow> 's \<Rightarrow> 'e + 's" where
  "fold_err f [] s = Inr s"
| "fold_err f (x # xs) s = (case f x s of Inl e \<Rightarrow> Inl e | Inr s' \<Rightarrow> fold_err f xs s')"

text \<open>\<^verbatim>\<open>sep.join(parts)\<close>\<close>

fun join :: "string \<Rightarrow> string list \<Rightarrow> string" where
  "join sep [] = ''''"
| "join sep [p] = p"
| "join sep (p # q # ps) = p @ sep @ join sep (q # ps)"

text \<open>
  Splitting at every character that satisfies \<open>p\<close>, empty pieces kept;
  \<^verbatim>\<open>s.split(c)\<close> is \<open>split_char c s\<close>.
\<close>

fun split_on :: "(char \<Rightarrow> bool) \<Rightarrow> string \<Rightarrow> string list" where
  "split_on p [] = [[]]"
| "split_on p (x # xs) =
     (if p x then [] # split_on p xs
      else (case split_on p xs of
              [] \<Rightarrow> [[x]]
            | seg # segs \<Rightarrow> (x # seg) # segs))"

definition split_char :: "char \<Rightarrow> string \<Rightarrow> string list" where
  "split_char c s = split_on (\<lambda>x. x = c) s"

section \<open>\<^verbatim>\<open>search_keyword_in_hrefs\<close>\<close>

text \<open>
  A link record as \<^verbatim>\<open>bfs_traverse_dom\<close> makes it, the entry of \<^verbatim>\<open>unique_urls\<close>
  (\<open>cand_path\<close> is the key \<^verbatim>\<open>'path'\<close>, present only once the entry is a match), the
  per-level debug record and statistics, and the result.
  \<^verbatim>\<open>keyword_ratio\<close> is the quotient of two counts, a float in the program; it is
  kept exact here as a rational.  The program only compares ratios, and for counts
  below \<open>2^26\<close> two quotients compare as floats the way they compare exactly.
\<close>

record href =
  href_url :: string
  href_text :: string
  href_tag :: string
  href_element_type :: string

record candidate =
  cand_text :: string
  cand_url :: string
  cand_tag :: string
  cand_normalized_url :: string
  cand_path :: "string option"

record debug_info =
  total_urls :: nat
  skipped :: "(string \<times> string) list"
  included :: "string list"

record level_stat =
  total_unique_urls :: nat
  matching_urls :: nat
  keyword_ratio :: rat

record search_result =
  target_level :: nat
  all_matches :: "(nat \<times> candidate list) list"
  best_matches :: "candidate list"
  level_stats :: "(nat \<times> level_stat) list"
  highest_ratio :: rat
  debug_infos :: "(nat \<times> debug_info) list"

definition share_domains :: "string list" where
  "share_domains = [''facebook.com/sharer'', ''twitter.com/intent/tweet'',
     ''whatsapp.com/send'', ''telegram.me/share'']"

definition is_share_link :: "string \<Rightarrow> bool" where
  "is_share_link url = list_ex (\<lambda>share_domain. contains (lower url) share_domain) share_domains"

definition social_reason :: string where
  "social_reason = ''Social media sharing link''"

definition anchor_query_reason :: "parse_result \<Rightarrow> string" where
  "anchor_query_reason parsed_url =
     join '', ''
       ((if pr_fragment parsed_url \<noteq> [] then [''Has anchor (#'' @ pr_fragment parsed_url @ '')''] else []) @
        (if pr_query parsed_url \<noteq> [] then [''Has query parameters''] else []))"

definition normalize_url :: "parse_result \<Rightarrow> string" where
  "normalize_url parsed_url = pr_scheme parsed_url @ ''://'' @ pr_netloc parsed_url @ pr_path parsed_url"

text \<open>
  The body of the first loop over a level (lines 275 to 314); the state is
  \<^verbatim>\<open>unique_urls\<close> and \<^verbatim>\<open>debug_info['skipped']\<close>.
\<close>

definition collect_href ::
  "(string \<Rightarrow> py_error + parse_result) \<Rightarrow> href \<Rightarrow>
   (string \<times> candidate) list \<times> (string \<times> string) list \<Rightarrow>
   py_error + ((string \<times> candidate) list \<times> (string \<times> string) list)" where
  "collect_href up h st =
     (let unique_urls = fst st; skip = snd st; url = href_url h
      in if is_share_link url then Inr (unique_urls, AList.update url social_reason skip)
         else
           (case up url of
              Inl e \<Rightarrow> Inl e
            | Inr parsed_url \<Rightarrow>
                (let normalized_url = normalize_url parsed_url
                 in if pr_fragment parsed_url \<noteq> [] \<or> pr_query parsed_url \<noteq> []
                    then Inr (unique_urls, AList.update url (anchor_query_reason parsed_url) skip)
                    else if (case map_of unique_urls normalized_url of
                               None \<Rightarrow> True
                             | Some old \<Rightarrow> length (href_text h) > length (cand_text old))
                    then Inr (AList.update normalized_url
                                \<lparr>cand_text = href_text h, cand_url = href_url h, cand_tag = href_tag h,
                                 cand_normalized_url = normalized_url, cand_path = None\<rparr> unique_urls,
                              skip)
                    else Inr (unique_urls, skip))))"

definition not_in_path_reason :: "string \<Rightarrow> string" where
  "not_in_path_reason keyword = ''Keyword '' @ [quote] @ keyword @ [quote] @ '' not in URL path''"

definition entire_path_reason :: "string \<Rightarrow> string" where
  "entire_path_reason keyword = ''Keyword '' @ [quote] @ keyword @ [quote] @ '' is the entire path''"

text \<open>
  The body of the second loop (lines 321 to 342); the state is \<^verbatim>\<open>matching_items\<close>,
  \<^verbatim>\<open>debug_info['skipped']\<close> and \<^verbatim>\<open>debug_info['included']\<close>.
\<close>

definition match_candidate ::
  "(string \<Rightarrow> py_error + parse_result) \<Rightarrow> re_item list \<Rightarrow> string \<Rightarrow> string \<times> candidate \<Rightarrow>
   candidate list \<times> (string \<times> string) list \<times> string list \<Rightarrow>
   py_error + (candidate list \<times> (string \<times> string) list \<times> string list)" where
  "match_candidate up regex keyword item st =
     (let norm_url = fst item; href_data = snd item;
          matching_items = fst st; skip = fst (snd st); incl = snd (snd st)
      in case up norm_url of
           Inl e \<Rightarrow> Inl e
         | Inr parsed_url \<Rightarrow>
             (let path = pr_path parsed_url
              in if \<not> re_search regex path
                 then Inr (matching_items, AList.update norm_url (not_in_path_reason keyword) skip, incl)
                 else
                   (let path_segments = filter (\<lambda>segment. segment \<noteq> []) (split_char (CHR ''/'') path)
                    in if (case path_segments of [segment] \<Rightarrow> re_fullmatch regex segment | _ \<Rightarrow> False)
                       then Inr (matching_items,
                                 AList.update norm_url (entire_path_reason keyword) skip, incl)
                       else Inr (matching_items @ [href_data\<lparr>cand_path := Some path\<rparr>], skip,
                                 incl @ [norm_url]))))"

text \<open>One level: both loops, then the counts (lines 266 to 342).\<close>

definition process_level ::
  "(string \<Rightarrow> py_error + parse_result) \<Rightarrow> re_item list \<Rightarrow> string \<Rightarrow> href list \<Rightarrow>
   py_error + (nat \<times> candidate list \<times> debug_info)" where
  "process_level up regex keyword hrefs =
     (case fold_err (collect_href up) hrefs ([], []) of
        Inl e \<Rightarrow> Inl e
      | Inr st1 \<Rightarrow>
          (case fold_err (match_candidate up regex keyword) (fst st1) ([], snd st1, []) of
             Inl e \<Rightarrow> Inl e
           | Inr st2 \<Rightarrow>
               Inr (length (fst st1), fst st2,
                    \<lparr>total_urls = length hrefs, skipped = fst (snd st2), included = snd (snd st2)\<rparr>)))"

text \<open>The body of the loop over the levels (lines 265 to 358).\<close>

definition level_step ::
  "(string \<Rightarrow> py_error + parse_result) \<Rightarrow> re_item list \<Rightarrow> string \<Rightarrow> nat \<times> href list \<Rightarrow>
   (nat \<times> level_stat) list \<times> (nat \<times> candidate list) list \<times> (nat \<times> debug_info) list \<Rightarrow>
   py_error + ((nat \<times> level_stat) list \<times> (nat \<times> candidate list) list \<times> (nat \<times> debug_info) list)" where
  "level_step up regex keyword entry st =
     (let level = fst entry; hrefs = snd entry;
          stats = fst st; matches = fst (snd st); debug = snd (snd st)
      in case process_level up regex keyword hrefs of
           Inl e \<Rightarrow> Inl e
         | Inr r \<Rightarrow>
             (let total_valid_urls = fst r; matching_items = fst (snd r); dbg = snd (snd r)
              in Inr (if total_valid_urls > 0
                      then AList.update level
                             \<lparr>total_unique_urls = total_valid_urls,
                              matching_urls = length matching_items,
                              keyword_ratio = of_nat (length matching_items) / of_nat total_valid_urls\<rparr>
                             stats
                      else stats,
                      if total_valid_urls > 0 \<and> matching_items \<noteq> []
                      then AList.update level matching_items matches else matches,
                      AList.update level dbg debug)))"

text \<open>
  \<^verbatim>\<open>sorted(items, key=..., reverse=True)\<close>: descending and stable, which the
  library gets by reversing, sorting and reversing again.
\<close>

definition sorted_desc :: "('a \<Rightarrow> rat) \<Rightarrow> 'a list \<Rightarrow> 'a list" where
  "sorted_desc key xs = rev (sort_key key (rev xs))"

definition search_keyword_in_hrefs ::
  "(string \<Rightarrow> py_error + parse_result) \<Rightarrow> (nat \<times> href list) list \<Rightarrow> string \<Rightarrow>
   py_error + search_result option" where
  "search_keyword_in_hrefs up level_hrefs keyword =
     (case keyword_regex keyword of
        Inl e \<Rightarrow> Inl e
      | Inr regex \<Rightarrow>
          (case fold_err (level_step up regex keyword) level_hrefs ([], [], []) of
             Inl e \<Rightarrow> Inl e
           | Inr st \<Rightarrow>
               (let stats = fst st; matches = fst (snd st); debug = snd (snd st)
                in if stats = [] then Inr None
                   else
                     (case sorted_desc (\<lambda>x. keyword_ratio (snd x)) stats of
                        [] \<Rightarrow> Inl IndexError
                      | first # _ \<Rightarrow>
                          (let highest = keyword_ratio (snd first);
                               same_ratio_levels =
                                 map fst (filter (\<lambda>x. keyword_ratio (snd x) = highest) stats);
                               target =
                                 (case same_ratio_levels of
                                    [] \<Rightarrow> fst first
                                  | l # ls \<Rightarrow> fold min ls l)
                           in Inr (Some
                                \<lparr>target_level = target,
                                 all_matches = matches,
                                 best_matches =
                                   (case map_of matches target of None \<Rightarrow> [] | Some m \<Rightarrow> m),
                                 level_stats = stats,
                                 highest_ratio = highest,
                                 debug_infos = debug\<rparr>))))))"

section \<open>\<^verbatim>\<open>urllib.parse.urljoin\<close>\<close>

text \<open>
  \<open>urllib_urljoin\<close> follows the library function \<^verbatim>\<open>urljoin\<close> step by step
  (CPython 3.12).  It parses the base, then the reference with the scheme of the
  base as the default scheme, so it raises \<open>ValueError\<close> where the parser does.
  \<open>urlparse_default\<close> is the parser with its second argument, the scheme that a URL
  without one is given; \<open>urlunparse\<close> puts six components together again.
\<close>

definition uses_relative :: "string list" where
  "uses_relative = ['''', ''ftp'', ''http'', ''gopher'', ''nntp'', ''imap'', ''wais'', ''file'',
     ''https'', ''shttp'', ''mms'', ''prospero'', ''rtsp'', ''rtsps'', ''rtspu'', ''sftp'',
     ''svn'', ''svn+ssh'', ''ws'', ''wss'']"

definition uses_netloc :: "string list" where
  "uses_netloc = ['''', ''ftp'', ''http'', ''gopher'', ''nntp'', ''telnet'', ''imap'', ''wais'',
     ''file'', ''mms'', ''https'', ''shttp'', ''snews'', ''prospero'', ''rtsp'', ''rtsps'',
     ''rtspu'', ''rsync'', ''svn'', ''svn+ssh'', ''sftp'', ''nfs'', ''git'', ''git+ssh'',
     ''ws'', ''wss'', ''itms-services'']"

text \<open>\<^verbatim>\<open>s.strip(_WHATWG_C0_CONTROL_OR_SPACE)\<close>\<close>

definition strip_c0 :: "string \<Rightarrow> string" where
  "strip_c0 s =
     rev (dropWhile (\<lambda>c. (of_char c :: nat) \<le> 32) (rev (dropWhile (\<lambda>c. (of_char c :: nat) \<le> 32) s)))"

definition split_scheme_or :: "string \<Rightarrow> string \<Rightarrow> string \<times> string" where
  "split_scheme_or scheme url =
     (let i = length (takeWhile (\<lambda>x. x \<noteq> CHR '':'') url)
      in if CHR '':'' \<in> set url \<and> 0 < i \<and> is_alpha (hd url) \<and> list_all scheme_char (take i url)
         then (lower (take i url), drop (Suc i) url)
         else (scheme, url))"

definition urlparse_default :: "(string \<Rightarrow> bool) \<Rightarrow> string \<Rightarrow> string \<Rightarrow> py_error + parse_result" where
  "urlparse_default bracketed_ok url0 scheme0 =
     (let url1 = dropWhile (\<lambda>c. (of_char c :: nat) \<le> 32) url0;
          scheme1 = strip_c0 scheme0;
          url2 = filter (\<lambda>c. c \<notin> set [CHR 0x09, CHR 0x0D, CHR 0x0A]) url1;
          scheme2 = filter (\<lambda>c. c \<notin> set [CHR 0x09, CHR 0x0D, CHR 0x0A]) scheme1;
          (scheme, url3) = split_scheme_or scheme2 url2;
          (netloc, url4) = (if take 2 url3 = ''//'' then splitnetloc url3 else ('''', url3))
      in if (CHR ''['' \<in> set netloc \<and> CHR '']'' \<notin> set netloc) \<or>
            (CHR '']'' \<in> set netloc \<and> CHR ''['' \<notin> set netloc) then Inl ValueError
         else if CHR ''['' \<in> set netloc \<and> CHR '']'' \<in> set netloc \<and> \<not> bracketed_ok netloc
         then Inl ValueError
         else
           (let (url5, fragment) =
                  (if CHR ''#'' \<in> set url4 then split_first (CHR ''#'') url4 else (url4, ''''));
                (url6, query) =
                  (if CHR ''?'' \<in> set url5 then split_first (CHR ''?'') url5 else (url5, ''''));
                (url7, params) =
                  (if scheme \<in> set uses_params \<and> CHR '';'' \<in> set url6
                   then splitparams url6 else (url6, ''''))
            in Inr \<lparr>pr_scheme = scheme, pr_netloc = netloc, pr_path = url7,
                     pr_params = params, pr_query = query, pr_fragment = fragment\<rparr>))"

definition urlunsplit :: "string \<Rightarrow> string \<Rightarrow> string \<Rightarrow> string \<Rightarrow> string \<Rightarrow> string" where
  "urlunsplit scheme netloc url0 query fragment =
     (let url1 =
            (if netloc \<noteq> [] \<or> (scheme \<noteq> [] \<and> scheme \<in> set uses_netloc \<and> take 2 url0 \<noteq> ''//'')
             then ''//'' @ netloc @ (if url0 \<noteq> [] \<and> take 1 url0 \<noteq> ''/'' then ''/'' @ url0 else url0)
             else url0);
          url2 = (if scheme \<noteq> [] then scheme @ '':'' @ url1 else url1);
          url3 = (if query \<noteq> [] then url2 @ ''?'' @ query else url2)
      in if fragment \<noteq> [] then url3 @ ''#'' @ fragment else url3)"

definition urlunparse :: "parse_result \<Rightarrow> string" where
  "urlunparse p =
     urlunsplit (pr_scheme p) (pr_netloc p)
       (if pr_params p \<noteq> [] then pr_path p @ '';'' @ pr_params p else pr_path p)
       (pr_query p) (pr_fragment p)"

text \<open>
  One turn of the loop over the segments: \<^verbatim>\<open>..\<close> takes the last resolved segment away,
  if there is one, \<^verbatim>\<open>.\<close> is passed over, any other segment is appended.
\<close>

definition resolve_segment :: "string \<Rightarrow> string list \<Rightarrow> string list" where
  "resolve_segment seg resolved_path =
     (if seg = ''..'' then butlast resolved_path
      else if seg = ''.'' then resolved_path
      else resolved_path @ [seg])"

text \<open>\<^verbatim>\<open>segments[1:-1] = filter(None, segments[1:-1])\<close>\<close>

definition drop_empty_inner :: "string list \<Rightarrow> string list" where
  "drop_empty_inner segments =
     (if length segments < 2 then segments
      else hd segments # filter (\<lambda>seg. seg \<noteq> []) (butlast (tl segments)) @ [last segments])"

definition urllib_urljoin :: "(string \<Rightarrow> bool) \<Rightarrow> string \<Rightarrow> string \<Rightarrow> py_error + string" where
  "urllib_urljoin bracketed_ok base url =
     (if base = [] then Inr url
      else if url = [] then Inr base
      else
        (case urlparse_default bracketed_ok base '''' of
           Inl e \<Rightarrow> Inl e
         | Inr b \<Rightarrow>
             (case urlparse_default bracketed_ok url (pr_scheme b) of
                Inl e \<Rightarrow> Inl e
              | Inr u \<Rightarrow>
                  if pr_scheme u \<noteq> pr_scheme b \<or> pr_scheme u \<notin> set uses_relative then Inr url
                  else if pr_scheme u \<in> set uses_netloc \<and> pr_netloc u \<noteq> [] then Inr (urlunparse u)
                  else
                    (let netloc = (if pr_scheme u \<in> set uses_netloc then pr_netloc b else pr_netloc u)
                     in if pr_path u = [] \<and> pr_params u = []
                        then Inr (urlunparse
                               (u\<lparr>pr_netloc := netloc, pr_path := pr_path b, pr_params := pr_params b,
                                  pr_query := (if pr_query u = [] then pr_query b else pr_query u)\<rparr>))
                        else
                          (let base_parts0 = split_char (CHR ''/'') (pr_path b);
                               base_parts =
                                 (if last base_parts0 \<noteq> [] then butlast base_parts0 else base_parts0);
                               segments =
                                 (if take 1 (pr_path u) = ''/'' then split_char (CHR ''/'') (pr_path u)
                                  else drop_empty_inner (base_parts @ split_char (CHR ''/'') (pr_path u)));
                               resolved0 = fold resolve_segment segments [];
                               resolved_path =
                                 (if last segments = ''.'' \<or> last segments = ''..''
                                  then resolved0 @ [''''] else resolved0);
                               joined = join ''/'' resolved_path
                           in Inr (urlunparse
                                (u\<lparr>pr_netloc := netloc,
                                   pr_path := (if joined = [] then ''/'' else joined)\<rparr>)))))))"

section \<open>\<^verbatim>\<open>bfs_traverse_dom\<close>\<close>

text \<open>
  A node of the DOM snapshot: a dictionary whose keys may be absent (\<open>None\<close>).  The
  list \<open>children\<close> is empty when the key \<^verbatim>\<open>'children'\<close> is absent or holds an empty
  list; the traversal treats the two alike.  \<^verbatim>\<open>urljoin\<close> is a parameter of the
  model; it may raise.  The library's function is \<open>urllib_urljoin\<close> above.
\<close>

datatype node = Node
  (nodeType: "int option")
  (tagName: "string option")
  (attributes: "(string \<times> string) list option")
  (linkText: "string option")
  (displayedText: "string option")
  (children: "node list")

definition image_extensions :: "string list" where
  "image_extensions = [''.jpg'', ''.jpeg'', ''.png'', ''.gif'', ''.bmp'', ''.webp'', ''.svg'', ''.ico'']"

text \<open>\<^verbatim>\<open>d.get(key, '')\<close>\<close>

definition get_str :: "string option \<Rightarrow> string" where
  "get_str v = (case v of None \<Rightarrow> '''' | Some s \<Rightarrow> s)"

text \<open>
  The characters at which \<^verbatim>\<open>s.split()\<close> splits: up to U+00FF these are U+0009 to
  U+000D, U+001C to U+0020, U+0085 and U+00A0.
\<close>

definition is_space :: "char \<Rightarrow> bool" where
  "is_space c = ((9 \<le> (of_char c :: nat) \<and> (of_char c :: nat) \<le> 13) \<or>
                 (28 \<le> (of_char c :: nat) \<and> (of_char c :: nat) \<le> 32) \<or>
                 (of_char c :: nat) = 0x85 \<or> (of_char c :: nat) = 0xA0)"

text \<open>\<^verbatim>\<open>' '.join(s.split())\<close>\<close>

definition collapse_whitespace :: "string \<Rightarrow> string" where
  "collapse_whitespace s = join '' '' (filter (\<lambda>w. w \<noteq> []) (split_on is_space s))"

text \<open>
  What one node adds (lines 203 to 233): nothing, a link record, or the error that
  \<^verbatim>\<open>urljoin\<close> raised.
\<close>

definition node_href ::
  "(string \<Rightarrow> string \<Rightarrow> py_error + string) \<Rightarrow> string \<Rightarrow> node \<Rightarrow> (py_error + href) option" where
  "node_href urljoin base_url node =
     (if nodeType node = Some 1 then
        (let tag_name = get_str (tagName node)
         in case attributes node of
              None \<Rightarrow> None
            | Some attrs \<Rightarrow>
                (let href = get_str (map_of attrs ''href'')
                 in if href \<noteq> [] \<and> \<not> startswith href ''#'' \<and> \<not> startswith href ''javascript:''
                    then
                      if \<not> list_ex (\<lambda>ext. endswith (lower href) ext) image_extensions
                      then
                        (let link_text0 =
                               (if get_str (linkText node) \<noteq> [] then get_str (linkText node)
                                else get_str (displayedText node));
                             link_text1 =
                               (if link_text0 = []
                                then (if get_str (map_of attrs ''title'') \<noteq> []
                                      then get_str (map_of attrs ''title'') else ''[No text]'')
                                else link_text0);
                             full =
                               (if \<not> (startswith href ''http://'' \<or> startswith href ''https://'' \<or>
                                       startswith href ''//'')
                                then urljoin base_url href else Inr href)
                         in case full of
                              Inl e \<Rightarrow> Some (Inl e)
                            | Inr full_url \<Rightarrow>
                                Some (Inr \<lparr>href_url = full_url,
                                           href_text =
                                             (if link_text1 \<noteq> [] then collapse_whitespace link_text1
                                              else link_text1),
                                           href_tag = tag_name,
                                           href_element_type =
                                             (if lower tag_name = ''a'' then ''anchor''
                                              else ''element_with_href'')\<rparr>))
                      else None
                    else None))
      else None)"

text \<open>\<^verbatim>\<open>level_hrefs[level].append(h)\<close> on a \<^verbatim>\<open>defaultdict(list)\<close>\<close>

definition append_level :: "nat \<Rightarrow> href \<Rightarrow> (nat \<times> href list) list \<Rightarrow> (nat \<times> href list) list" where
  "append_level level h level_hrefs =
     AList.update level ((case map_of level_hrefs level of None \<Rightarrow> [] | Some hs \<Rightarrow> hs) @ [h]) level_hrefs"

fun node_count :: "node \<Rightarrow> nat" where
  "node_count (Node ty tg attrs ltext dtext cs) = Suc (sum_list (map node_count cs))"

text \<open>The \<^verbatim>\<open>while queue\<close> loop (lines 199 to 238): the queue holds pairs of a node and its level.\<close>

function bfs_loop ::
  "(string \<Rightarrow> string \<Rightarrow> py_error + string) \<Rightarrow> string \<Rightarrow> (node \<times> nat) list \<Rightarrow>
   (nat \<times> href list) list \<Rightarrow> py_error + (nat \<times> href list) list" where
  "bfs_loop urljoin base_url [] level_hrefs = Inr level_hrefs"
| "bfs_loop urljoin base_url ((node, level) # queue) level_hrefs =
     (case node_href urljoin base_url node of
        Some (Inl e) \<Rightarrow> Inl e
      | Some (Inr h) \<Rightarrow>
          bfs_loop urljoin base_url (queue @ map (\<lambda>child. (child, level + 1)) (children node))
            (append_level level h level_hrefs)
      | None \<Rightarrow>
          bfs_loop urljoin base_url (queue @ map (\<lambda>child. (child, level + 1)) (children node))
            level_hrefs)"
  by pat_completeness auto
termination
proof (relation "measure (\<lambda>(uj, b, q, lh). sum_list (map (\<lambda>x. node_count (fst x)) q))")
  show "wf (measure (\<lambda>(uj, b, q, lh). sum_list (map (\<lambda>x. node_count (fst x)) q)))"
    by simp
next
  fix urljoin :: "string \<Rightarrow> string \<Rightarrow> py_error + string"
    and base_url :: string and node :: node and level :: nat
    and queue :: "(node \<times> nat) list" and level_hrefs :: "(nat \<times> href list) list"
  have "sum_list (map (\<lambda>x. node_count (fst x)) (map (\<lambda>child. (child, level + 1)) (children node)))
          < node_count node"
    by (cases node) (simp add: comp_def)
  then show "((urljoin, base_url, queue @ map (\<lambda>child. (child, level + 1)) (children node), level_hrefs),
              (urljoin, base_url, (node, level) # queue, level_hrefs))
             \<in> measure (\<lambda>(uj, b, q, lh). sum_list (map (\<lambda>x. node_count (fst x)) q))"
    by simp
  fix x2 a
  show "((urljoin, base_url, queue @ map (\<lambda>child. (child, level + 1)) (children node),
               append_level level a level_hrefs),
              (urljoin, base_url, (node, level) # queue, level_hrefs))
             \<in> measure (\<lambda>(uj, b, q, lh). sum_list (map (\<lambda>x. node_count (fst x)) q))"
    using \<open>sum_list (map (\<lambda>x. node_count (fst x)) (map (\<lambda>child. (child, level + 1)) (children node)))
          < node_count node\<close> by simp
qed

definition bfs_traverse_dom ::
  "(string \<Rightarrow> string \<Rightarrow> py_error + string) \<Rightarrow> node \<Rightarrow> string \<Rightarrow> py_error + (nat \<times> href list) list" where
  "bfs_traverse_dom urljoin dom_snapshot base_url = bfs_loop urljoin base_url [(dom_snapshot, 0)] []"

section \<open>Notions used to state the properties\<close>

text \<open>The character before a position: the last one of what precedes it, if any.\<close>

definition prev_char :: "char option \<Rightarrow> string \<Rightarrow> char option" where
  "prev_char prev pre = (if pre = [] then prev else Some (last pre))"

text \<open>
  A link survives the first loop as a candidate when it is no sharing link, its URL
  parses and the parsed URL has neither fragment nor query; \<open>candidate_of\<close> is then
  its normalized URL with the entry the loop would store for it.  \<open>survivors\<close> are
  the candidates of a level in the order of its links.
\<close>

definition candidate_of ::
  "(string \<Rightarrow> py_error + parse_result) \<Rightarrow> href \<Rightarrow> (string \<times> candidate) option" where
  "candidate_of up h =
     (if is_share_link (href_url h) then None
      else (case up (href_url h) of
              Inl e \<Rightarrow> None
            | Inr p \<Rightarrow>
                if pr_fragment p \<noteq> [] \<or> pr_query p \<noteq> [] then None
                else Some (normalize_url p,
                           \<lparr>cand_text = href_text h, cand_url = href_url h, cand_tag = href_tag h,
                            cand_normalized_url = normalize_url p, cand_path = None\<rparr>)))"

definition survivors ::
  "(string \<Rightarrow> py_error + parse_result) \<Rightarrow> href list \<Rightarrow> (string \<times> candidate) list" where
  "survivors up hrefs = List.map_filter (candidate_of up) hrefs"

text \<open>The parse of a link's URL is reached, and raises.\<close>

definition parse_fails :: "(string \<Rightarrow> py_error + parse_result) \<Rightarrow> href \<Rightarrow> bool" where
  "parse_fails up h = (\<not> is_share_link (href_url h) \<and> isl (up (href_url h)))"

text \<open>Storing a candidate in \<^verbatim>\<open>unique_urls\<close>: a new key, or a longer label than the stored one.\<close>

definition keep_longest ::
  "string \<times> candidate \<Rightarrow> (string \<times> candidate) list \<Rightarrow> (string \<times> candidate) list" where
  "keep_longest kc unique_urls =
     (if (case map_of unique_urls (fst kc) of
            None \<Rightarrow> True
          | Some old \<Rightarrow> length (cand_text (snd kc)) > length (cand_text old))
      then AList.update (fst kc) (snd kc) unique_urls else unique_urls)"

text \<open>The content of \<^verbatim>\<open>unique_urls\<close> after the first loop: the survivors, merged by normalized URL.\<close>

definition candidate_pool ::
  "(string \<Rightarrow> py_error + parse_result) \<Rightarrow> href list \<Rightarrow> (string \<times> candidate) list" where
  "candidate_pool up hrefs = fold keep_longest (survivors up hrefs) []"

text \<open>
  Position \<open>i\<close> of a list of competing candidates holds the longest label, and the
  first one of that length: no label is longer, and every earlier one is shorter.
\<close>

definition first_longest_at :: "(string \<times> candidate) list \<Rightarrow> nat \<Rightarrow> bool" where
  "first_longest_at g i =
     (i < length g \<and>
      list_all (\<lambda>e. length (cand_text (snd e)) \<le> length (cand_text (snd (g ! i)))) g \<and>
      list_all (\<lambda>e. length (cand_text (snd e)) < length (cand_text (snd (g ! i)))) (take i g))"

text \<open>
  The assignment to \<^verbatim>\<open>debug_info['skipped']\<close> that one link causes in the first loop,
  and the one that one entry of \<^verbatim>\<open>unique_urls\<close> causes in the second loop, if any;
  \<open>write_all\<close> performs a sequence of assignments in order.
\<close>

definition collect_write ::
  "(string \<Rightarrow> py_error + parse_result) \<Rightarrow> href \<Rightarrow> (string \<times> string) option" where
  "collect_write up h =
     (if is_share_link (href_url h) then Some (href_url h, social_reason)
      else (case up (href_url h) of
              Inl e \<Rightarrow> None
            | Inr p \<Rightarrow>
                if pr_fragment p \<noteq> [] \<or> pr_query p \<noteq> []
                then Some (href_url h, anchor_query_reason p) else None))"

definition is_match :: "re_item list \<Rightarrow> string \<Rightarrow> bool" where
  "is_match regex path =
     (re_search regex path \<and>
      \<not> (case filter (\<lambda>segment. segment \<noteq> []) (split_char (CHR ''/'') path) of
           [segment] \<Rightarrow> re_fullmatch regex segment
         | _ \<Rightarrow> False))"

definition match_write ::
  "(string \<Rightarrow> py_error + parse_result) \<Rightarrow> re_item list \<Rightarrow> string \<Rightarrow> string \<times> candidate \<Rightarrow>
   (string \<times> string) option" where
  "match_write up regex keyword item =
     (case up (fst item) of
        Inl e \<Rightarrow> None
      | Inr p \<Rightarrow>
          if \<not> re_search regex (pr_path p) then Some (fst item, not_in_path_reason keyword)
          else if \<not> is_match regex (pr_path p) then Some (fst item, entire_path_reason keyword)
          else None)"

definition write_all :: "(string \<times> string) list \<Rightarrow> (string \<times> string) list \<Rightarrow> (string \<times> string) list" where
  "write_all ws skip = fold (\<lambda>w. AList.update (fst w) (snd w)) ws skip"

text \<open>
  All assignments to \<^verbatim>\<open>debug_info['skipped']\<close> on one level, in the order in which the
  two loops make them.
\<close>

definition skip_writes ::
  "(string \<Rightarrow> py_error + parse_result) \<Rightarrow> re_item list \<Rightarrow> string \<Rightarrow> href list \<Rightarrow>
   (string \<times> string) list" where
  "skip_writes up regex keyword hrefs =
     List.map_filter (collect_write up) hrefs @
     List.map_filter (match_write up regex keyword) (candidate_pool up hrefs)"

text \<open>The entry that the second loop appends to \<^verbatim>\<open>matching_items\<close> for an entry of \<^verbatim>\<open>unique_urls\<close>, if any.\<close>

definition matched ::
  "(string \<Rightarrow> py_error + parse_result) \<Rightarrow> re_item list \<Rightarrow> string \<times> candidate \<Rightarrow> candidate option" where
  "matched up regex item =
     (case up (fst item) of
        Inl e \<Rightarrow> None
      | Inr p \<Rightarrow>
          if is_match regex (pr_path p) then Some ((snd item)\<lparr>cand_path := Some (pr_path p)\<rparr>) else None)"

text \<open>
  The nodes of a tree by depth: the root is at depth 0, and the nodes at depth
  \<open>d + 1\<close> are the children of the nodes at depth \<open>d\<close>, parent by parent and in the
  order of each \<open>children\<close> list.  A node at depth \<open>d\<close> is \<open>d\<close> parent hops away from
  the root.
\<close>

fun nodes_at_depth :: "nat \<Rightarrow> node \<Rightarrow> node list" where
  "nodes_at_depth 0 tree = [tree]"
| "nodes_at_depth (Suc d) tree = concat (map children (nodes_at_depth d tree))"

text \<open>\<^verbatim>\<open>level_hrefs[d]\<close>, empty when the key is absent\<close>

definition level_links :: "(nat \<times> href list) list \<Rightarrow> nat \<Rightarrow> href list" where
  "level_links level_hrefs d = (case map_of level_hrefs d of None \<Rightarrow> [] | Some hs \<Rightarrow> hs)"

text \<open>
  The condition for a link record in words: an element node with an attribute
  \<^verbatim>\<open>href\<close> whose value is not empty, starts neither with \<^verbatim>\<open>#\<close> nor with
  \<^verbatim>\<open>javascript:\<close>, and in lower case ends in none of the image extensions.
\<close>

definition yields_link :: "node \<Rightarrow> bool" where
  "yields_link n =
     (nodeType n = Some 1 \<and>
      (case attributes n of
         None \<Rightarrow> False
       | Some attrs \<Rightarrow>
           (case map_of attrs ''href'' of
              None \<Rightarrow> False
            | Some href \<Rightarrow>
                href \<noteq> [] \<and> \<not> startswith href ''#'' \<and> \<not> startswith href ''javascript:'' \<and>
                \<not> list_ex (\<lambda>ext. endswith (lower href) ext)
                    [''.jpg'', ''.jpeg'', ''.png'', ''.gif'', ''.bmp'', ''.webp'', ''.svg'', ''.ico''])))"

text \<open>
  The order in which the loop takes nodes off a queue, the body of the loop as a
  step on \<^verbatim>\<open>level_hrefs\<close>, and the children that a queue puts behind itself.
\<close>

function bfs_order :: "(node \<times> nat) list \<Rightarrow> (node \<times> nat) list" where
  "bfs_order [] = []"
| "bfs_order ((node, level) # queue) =
     (node, level) # bfs_order (queue @ map (\<lambda>child. (child, level + 1)) (children node))"
  by pat_completeness auto
termination
proof (relation "measure (\<lambda>q. sum_list (map (\<lambda>x. node_count (fst x)) q))")
  show "wf (measure (\<lambda>q. sum_list (map (\<lambda>x. node_count (fst x)) q)))"
    by simp
next
  fix node :: node and level :: nat and queue :: "(node \<times> nat) list"
  have "sum_list (map (\<lambda>x. node_count (fst x)) (map (\<lambda>child. (child, level + 1)) (children node)))
          < node_count node"
    by (cases node) (simp add: comp_def)
  then show "(queue @ map (\<lambda>child. (child, level + 1)) (children node), (node, level) # queue)
             \<in> measure (\<lambda>q. sum_list (map (\<lambda>x. node_count (fst x)) q))"
    by simp
qed

definition visit ::
  "(string \<Rightarrow> string \<Rightarrow> py_error + string) \<Rightarrow> string \<Rightarrow> node \<times> nat \<Rightarrow>
   (nat \<times> href list) list \<Rightarrow> py_error + (nat \<times> href list) list" where
  "visit urljoin base_url entry level_hrefs =
     (case node_href urljoin base_url (fst entry) of
        Some (Inl e) \<Rightarrow> Inl e
      | Some (Inr h) \<Rightarrow> Inr (append_level (snd entry) h level_hrefs)
      | None \<Rightarrow> Inr level_hrefs)"

definition expand :: "(node \<times> nat) list \<Rightarrow> (node \<times> nat) list" where
  "expand queue = concat (map (\<lambda>entry. map (\<lambda>child. (child, snd entry + 1)) (children (fst entry))) queue)"

text \<open>The link record of a node, if the node gives one without raising.\<close>

definition link_of ::
  "(string \<Rightarrow> string \<Rightarrow> py_error + string) \<Rightarrow> string \<Rightarrow> node \<Rightarrow> href option" where
  "link_of urljoin base_url n =
     (case node_href urljoin base_url n of Some (Inr h) \<Rightarrow> Some h | _ \<Rightarrow> None)"

text \<open>
  The call of \<^verbatim>\<open>urljoin\<close> that the traversal makes for a node (lines 220 and 221)
  raises: the value of \<^verbatim>\<open>href\<close> starts with none of \<^verbatim>\<open>http://\<close>, \<^verbatim>\<open>https://\<close> and
  \<^verbatim>\<open>//\<close>, and joining it to the base raises.
\<close>

definition join_fails :: "(string \<Rightarrow> string \<Rightarrow> py_error + string) \<Rightarrow> string \<Rightarrow> node \<Rightarrow> bool" where
  "join_fails urljoin base_url n =
     (case attributes n of
        None \<Rightarrow> False
      | Some attrs \<Rightarrow>
          \<not> (startswith (get_str (map_of attrs ''href'')) ''http://'' \<or>
             startswith (get_str (map_of attrs ''href'')) ''https://'' \<or>
             startswith (get_str (map_of attrs ''href'')) ''//'') \<and>
          isl (urljoin base_url (get_str (map_of attrs ''href''))))"

section \<open>Sample inputs\<close>

definition anchor :: "string \<Rightarrow> string \<Rightarrow> href" where
  "anchor url label = \<lparr>href_url = url, href_text = label, href_tag = ''A'', href_element_type = ''anchor''\<rparr>"

definition stored :: "string \<Rightarrow> string \<Rightarrow> candidate" where
  "stored url label =
     \<lparr>cand_text = label, cand_url = url, cand_tag = ''A'', cand_normalized_url = url, cand_path = None\<rparr>"

definition fire_links :: "href list" where
  "fire_links =
     [anchor ''https://x.com/fire/report'' ''Report'',
      anchor ''https://facebook.com/sharer/sharer.php?u=x'' ''Share'',
      anchor ''https://x.com/fire'' ''Fire'',
      anchor ''https://x.com/fire?page=2'' ''Next'',
      anchor ''https://x.com/fire/report'' ''Full report'']"

definition tie_levels :: "(nat \<times> href list) list" where
  "tie_levels =
     [(3, [anchor ''https://x.com/fire/a'' ''A'']),
      (1, [anchor ''https://x.com/fire/b'' ''B'', anchor ''https://x.com/other'' ''Other'']),
      (2, [anchor ''https://x.com/fire/c'' ''C''])]"

definition partly_empty_levels :: "(nat \<times> href list) list" where
  "partly_empty_levels =
     [(0, [anchor ''https://facebook.com/sharer/sharer.php?u=x'' ''Share'',
           anchor ''https://x.com/news#top'' ''Top'']),
      (1, [anchor ''https://x.com/about'' ''About''])]"

definition excluded_levels :: "(nat \<times> href list) list" where
  "excluded_levels =
     [(4, [anchor ''https://x.com/news?utm=1'' ''News'', anchor ''https://x.com/news#top'' ''Top''])]"

definition rival_links :: "href list" where
  "rival_links =
     [anchor ''https://x.com/a'' ''News'',
      anchor ''https://x.com/a?x=1'' ''The longest label of all'',
      anchor ''https://x.com/b'' ''Elsewhere'',
      anchor ''https://x.com/a'' ''Latest news'',
      anchor ''https://x.com/a'' ''Other items'']"

definition repeat_levels :: "(nat \<times> href list) list" where
  "repeat_levels =
     [(0, [anchor ''https://x.com/news#top'' ''Top'',
           anchor ''https://facebook.com/sharer/x'' ''Share'',
           anchor (''https://facebook.com/sha'' @ [CHR 0x09] @ ''rer/x'') ''Odd'',
           anchor ''https://x.com/news#top'' ''Top again''])]"

definition bad_levels :: "(nat \<times> href list) list" where
  "bad_levels =
     [(0, [anchor ''https://x.com/fire/a'' ''A'',
           anchor ''http://[bad'' ''Bad'',
           anchor ''https://x.com/b'' ''B''])]"

text \<open>The parser with every bracketed host accepted.\<close>

definition urlparse_any :: "string \<Rightarrow> py_error + parse_result" where
  "urlparse_any = urlparse (\<lambda>netloc. True)"

text \<open>The reason that a result holds for a URL on a level, if any.\<close>

definition logged_reason :: "py_error + search_result option \<Rightarrow> nat \<Rightarrow> string \<Rightarrow> string option" where
  "logged_reason res level url =
     (case res of
        Inl e \<Rightarrow> None
      | Inr None \<Rightarrow> None
      | Inr (Some r) \<Rightarrow>
          (case map_of (debug_infos r) level of
             None \<Rightarrow> None
           | Some dbg \<Rightarrow> map_of (skipped dbg) url))"

definition join_to_base :: "string \<Rightarrow> string \<Rightarrow> py_error + string" where
  "join_to_base base_url href = Inr (base_url @ href)"

definition link_node :: "string \<Rightarrow> string \<Rightarrow> node list \<Rightarrow> node" where
  "link_node href label kids =
     Node (Some 1) (Some ''A'') (Some [(''href'', href)]) (Some label) (Some label) kids"

definition sample_tree :: node where
  "sample_tree =
     Node (Some 1) (Some ''HTML'') (Some []) None None
       [Node (Some 1) (Some ''DIV'') (Some [(''class'', ''nav'')]) None (Some ''menu'')
          [link_node ''/fire/report'' ''  The   report '' [],
           Node (Some 3) None None None None [],
           link_node ''#section2'' ''Jump'' []],
        link_node ''/fire'' ''Fire''
          [Node (Some 1) (Some ''LINK'') (Some [(''href'', ''/logo.PNG'')]) None None []]]"

definition sample_links :: "(nat \<times> href list) list" where
  "sample_links =
     [(1, [anchor ''https://x.com/fire'' ''Fire'']),
      (2, [anchor ''https://x.com/fire/report'' ''The report''])]"

definition unparsable_levels :: "(nat \<times> href list) list" where
  "unparsable_levels = [(0, [anchor ''http://[bad'' ''Bad''])]"

text \<open>The library's join with every bracketed host accepted.\<close>

definition urljoin_any :: "string \<Rightarrow> string \<Rightarrow> py_error + string" where
  "urljoin_any = urllib_urljoin (\<lambda>netloc. True)"

definition unjoinable_tree :: node where
  "unjoinable_tree =
     Node (Some 1) (Some ''HTML'') (Some []) None None
       [link_node ''/ok'' ''Ok'' [],
        link_node ''ftp://[bad'' ''Bad'' []]"

section \<open>Facts about the keyword pattern\<close>

lemma escape_special_not_alnum: "c \<in> set escape_special \<Longrightarrow> \<not> is_alpha c \<and> \<not> is_digit c"
  by (auto simp: escape_special_def backslash_def is_alpha_def is_upper_def is_lower_def is_digit_def)

lemma escape_letters_alpha: "\<forall>x \<in> set ''bABdDsSwWZafnrtvxuUN''. is_alpha x"
  by (simp add: is_alpha_def is_upper_def is_lower_def)

lemma sre_escape_non_alnum:
  assumes "\<not> is_alpha c" "\<not> is_digit c"
  shows "sre_escape c = Inr (Literal c)"
proof -
  have notin: "c \<notin> set ''bABdDsSwWZafnrtvxuUN''"
    using assms(1) escape_letters_alpha by blast
  have "c \<noteq> CHR ''b''" "c \<notin> set ''ABdDsSwWZ''" "c \<noteq> CHR ''a''" "c \<noteq> CHR ''f''"
    "c \<noteq> CHR ''n''" "c \<noteq> CHR ''r''" "c \<noteq> CHR ''t''" "c \<noteq> CHR ''v''" "c \<notin> set ''xuUN''"
    using notin by simp_all
  then show ?thesis
    using assms unfolding sre_escape_def by (simp only: if_False simp_thms)
qed

lemma sre_escape_special: "c \<in> set escape_special \<Longrightarrow> sre_escape c = Inr (Literal c)"
  using escape_special_not_alnum [of c] sre_escape_non_alnum [of c] by blast

lemma SPECIAL_CHARS_escaped: "c \<in> set SPECIAL_CHARS \<Longrightarrow> c \<in> set escape_special"
  by (auto simp: SPECIAL_CHARS_def escape_special_def)

lemma backslash_escaped: "backslash \<in> set escape_special"
  by (simp add: escape_special_def)

lemma sre_parse_escape:
  "sre_parse (re_escape k @ r) =
     (case sre_parse r of Inl e \<Rightarrow> Inl e | Inr items \<Rightarrow> Inr (map Literal k @ items))"
proof (induction k)
  case Nil
  show ?case by (simp add: re_escape_def split: sum.splits)
next
  case (Cons c k)
  have step: "re_escape (c # k) = (if c \<in> set escape_special then [backslash, c] else [c]) @ re_escape k"
    by (simp add: re_escape_def)
  show ?case
  proof (cases "c \<in> set escape_special")
    case True
    then show ?thesis
      using Cons.IH by (simp add: step sre_escape_special cons_item_def split: sum.splits)
  next
    case False
    then have "c \<noteq> backslash" "c \<notin> set SPECIAL_CHARS"
      using backslash_escaped SPECIAL_CHARS_escaped by auto
    then show ?thesis
      using False Cons.IH by (simp add: step cons_item_def split: sum.splits)
  qed
qed

lemma sre_parse_boundary: "sre_parse [backslash, CHR ''b''] = Inr [AtBoundary]"
  by (simp add: sre_escape_def cons_item_def)

lemma keyword_regex_items:
  "keyword_regex keyword = Inr (AtBoundary # map Literal keyword @ [AtBoundary])"
proof -
  have "sre_parse (re_escape keyword @ [backslash, CHR ''b'']) =
          Inr (map Literal keyword @ [AtBoundary])"
    by (simp only: sre_parse_escape sre_parse_boundary sum.case)
  then show ?thesis
    by (simp add: keyword_regex_def sre_escape_def cons_item_def)
qed

lemma match_literals:
  "match_items (map Literal k @ items) prev s =
     (if length k \<le> length s \<and> lower (take (length k) s) = lower k
      then match_items items (if k = [] then prev else Some (last (take (length k) s))) (drop (length k) s)
      else None)"
proof (induction k arbitrary: prev s)
  case Nil
  show ?case by (simp add: lower_def)
next
  case (Cons c k)
  show ?case
  proof (cases s)
    case Nil
    then show ?thesis by simp
  next
    case (Cons x xs)
    show ?thesis
    proof (cases "k = []")
      case True
      then show ?thesis using Cons by (simp add: lower_def)
    next
      case False
      then show ?thesis
        using Cons Cons.IH [of "Some x" xs] by (auto simp: lower_def)
    qed
  qed
qed

lemma search_from_iff:
  "search_from items prev s =
     (\<exists>pre rest. s = pre @ rest \<and> match_items items (prev_char prev pre) rest \<noteq> None)"
proof (induction s arbitrary: prev)
  case Nil
  show ?case by (simp add: prev_char_def)
next
  case (Cons c cs)
  have "(\<exists>pre rest. c # cs = pre @ rest \<and> match_items items (prev_char prev pre) rest \<noteq> None) =
        (match_items items prev (c # cs) \<noteq> None \<or>
         (\<exists>pre rest. cs = pre @ rest \<and> match_items items (prev_char (Some c) pre) rest \<noteq> None))"
    (is "?L = (?A \<or> ?B)")
  proof
    assume ?L
    then obtain pre rest where pr: "c # cs = pre @ rest" "match_items items (prev_char prev pre) rest \<noteq> None"
      by blast
    show "?A \<or> ?B"
    proof (cases pre)
      case Nil
      then show ?thesis using pr by (simp add: prev_char_def)
    next
      case (Cons p ps)
      then have "cs = ps @ rest" "prev_char prev pre = prev_char (Some c) ps"
        using pr(1) by (auto simp: prev_char_def)
      then show ?thesis using pr(2) by auto
    qed
  next
    assume "?A \<or> ?B"
    then show ?L
    proof
      assume ?A
      then have "c # cs = [] @ (c # cs) \<and> match_items items (prev_char prev []) (c # cs) \<noteq> None"
        by (simp add: prev_char_def)
      then show ?L by blast
    next
      assume ?B
      then obtain pre rest where pr: "cs = pre @ rest" "match_items items (prev_char (Some c) pre) rest \<noteq> None"
        by blast
      then have "c # cs = (c # pre) @ rest \<and> match_items items (prev_char prev (c # pre)) rest \<noteq> None"
        by (auto simp: prev_char_def)
      then show ?L by blast
    qed
  qed
  then show ?case using Cons.IH [of "Some c"] by simp
qed

lemma keyword_search:
  "re_search (AtBoundary # map Literal keyword @ [AtBoundary]) s =
     (\<exists>pre mid post. s = pre @ mid @ post \<and> lower mid = lower keyword \<and>
        at_boundary (prev_char None pre) (mid @ post) \<and>
        at_boundary (prev_char None (pre @ mid)) post)"
  (is "?L = ?R")
proof
  assume ?L
  then obtain pre rest where pr: "s = pre @ rest"
      "match_items (AtBoundary # map Literal keyword @ [AtBoundary]) (prev_char None pre) rest \<noteq> None"
    unfolding re_search_def search_from_iff by blast
  from pr(2) have b1: "at_boundary (prev_char None pre) rest"
    and m: "match_items (map Literal keyword @ [AtBoundary]) (prev_char None pre) rest \<noteq> None"
    by (auto split: if_splits)
  from m have len: "length keyword \<le> length rest"
    and lw: "lower (take (length keyword) rest) = lower keyword"
    and b2: "at_boundary (if keyword = [] then prev_char None pre else Some (last (take (length keyword) rest)))
               (drop (length keyword) rest)"
    by (auto simp: match_literals split: if_splits)
  let ?mid = "take (length keyword) rest" and ?post = "drop (length keyword) rest"
  have "s = pre @ ?mid @ ?post" using pr(1) by simp
  moreover have "at_boundary (prev_char None pre) (?mid @ ?post)" using b1 by simp
  moreover have "(if keyword = [] then prev_char None pre else Some (last ?mid)) = prev_char None (pre @ ?mid)"
  proof (cases "keyword = []")
    case True
    then show ?thesis by (simp add: prev_char_def)
  next
    case False
    then have "?mid \<noteq> []" using len by auto
    then show ?thesis using False by (simp add: prev_char_def)
  qed
  then have "at_boundary (prev_char None (pre @ ?mid)) ?post" using b2 by simp
  ultimately show ?R using lw by blast
next
  assume ?R
  then obtain pre mid post where h: "s = pre @ mid @ post" "lower mid = lower keyword"
      "at_boundary (prev_char None pre) (mid @ post)" "at_boundary (prev_char None (pre @ mid)) post"
    by blast
  have len: "length mid = length keyword" using h(2) by (metis length_map lower_def)
  have "(if keyword = [] then prev_char None pre else Some (last mid)) = prev_char None (pre @ mid)"
  proof (cases "keyword = []")
    case True
    then show ?thesis using len by (simp add: prev_char_def)
  next
    case False
    then have "mid \<noteq> []" using len by auto
    then show ?thesis using False by (simp add: prev_char_def)
  qed
  then have "at_boundary (if keyword = [] then prev_char None pre else Some (last mid)) post"
    using h(4) by simp
  then have "match_items (AtBoundary # map Literal keyword @ [AtBoundary]) (prev_char None pre) (mid @ post) \<noteq> None"
    using h(2,3) len by (cases "keyword = []") (simp_all add: match_literals)
  then show ?L unfolding re_search_def search_from_iff using h(1) by blast
qed

lemma keyword_fullmatch:
  "re_fullmatch (AtBoundary # map Literal keyword @ [AtBoundary]) s =
     (lower s = lower keyword \<and> s \<noteq> [] \<and> is_word (hd s) \<and> is_word (last s))"
proof (cases "s = []")
  case True
  then show ?thesis by (simp add: re_fullmatch_def at_boundary_def)
next
  case False
  then obtain x xs where s: "s = x # xs" by (cases s) auto
  show ?thesis
  proof (cases "keyword = []")
    case True
    then show ?thesis
      using s by (auto simp: re_fullmatch_def at_boundary_def lower_def split: list.splits)
  next
    case False
    have len: "lower s = lower keyword \<Longrightarrow> length keyword = length s"
      by (metis length_map lower_def)
    show ?thesis
      using False s len
      by (auto simp: re_fullmatch_def match_literals at_boundary_def lower_def
          split: list.splits option.splits if_splits)
  qed
qed

lemma accented_letters:
  "re_fullmatch (AtBoundary # map Literal [CHR ''x'', CHR 0xE9, CHR ''x''] @ [AtBoundary])
     [CHR ''x'', CHR 0xC9, CHR ''x'']"
  "\<not> re_search (AtBoundary # map Literal ''fire'' @ [AtBoundary]) ([CHR ''/'', CHR 0xE9] @ ''fire/x'')"
  "re_search (AtBoundary # map Literal ''fire'' @ [AtBoundary]) ([CHR ''/'', CHR 0xD7] @ ''FIRE/x'')"
  by code_simp+

text \<open>
  Claim C9.  For every keyword, the empty one and one full of pattern metacharacters
  included, building the pattern \<^verbatim>\<open>\b\<close> + \<^verbatim>\<open>re.escape(keyword)\<close> + \<^verbatim>\<open>\b\<close> does
  not raise, and the compiled pattern is the keyword's own characters, each one a
  literal, between two word boundaries: no character of the keyword acts as pattern
  syntax.  Matching is then a case-insensitive comparison with the keyword itself:
  a string is matched in full exactly when it equals the keyword up to case and
  begins and ends in a word character, and a string is found in a subject exactly
  at an occurrence of the keyword, up to case, with a word boundary on both sides.
  Keyword and subject range over the strings of code points up to U+00FF; on these,
  equality up to case is equality under \<open>lower\<close>, and the word characters are those
  of \<open>is_word\<close>, accented letters included.
\<close>

theorem keyword_pattern_is_literal:
  "keyword_regex keyword = Inr (AtBoundary # map Literal keyword @ [AtBoundary]) \<and>
   (\<forall>s. re_fullmatch (AtBoundary # map Literal keyword @ [AtBoundary]) s =
      (lower s = lower keyword \<and> s \<noteq> [] \<and> is_word (hd s) \<and> is_word (last s))) \<and>
   (\<forall>s. re_search (AtBoundary # map Literal keyword @ [AtBoundary]) s =
      (\<exists>pre mid post. s = pre @ mid @ post \<and> lower mid = lower keyword \<and>
         at_boundary (prev_char None pre) (mid @ post) \<and>
         at_boundary (prev_char None (pre @ mid)) post))"
  using keyword_regex_items keyword_fullmatch keyword_search by blast

section \<open>The two loops over a level\<close>

lemma fold_err_append:
  "fold_err f (xs @ ys) s = (case fold_err f xs s of Inl e \<Rightarrow> Inl e | Inr s' \<Rightarrow> fold_err f ys s')"
  by (induction xs arbitrary: s) (auto split: sum.splits)

lemma collect_href_eq:
  "collect_href up h (u, sk) =
     (if parse_fails up h then Inl (projl (up (href_url h)))
      else Inr (case candidate_of up h of None \<Rightarrow> u | Some kc \<Rightarrow> keep_longest kc u,
                case collect_write up h of None \<Rightarrow> sk | Some w \<Rightarrow> AList.update (fst w) (snd w) sk))"
  by (auto simp: collect_href_def parse_fails_def candidate_of_def collect_write_def keep_longest_def
      Let_def split: sum.splits option.splits)

lemma collect_fold_ok:
  "fold_err (collect_href up) hrefs (u, sk) = Inr (u', sk') \<Longrightarrow>
     u' = fold keep_longest (survivors up hrefs) u \<and>
     sk' = write_all (List.map_filter (collect_write up) hrefs) sk \<and>
     (\<forall>h \<in> set hrefs. \<not> parse_fails up h)"
proof (induction hrefs arbitrary: u sk)
  case Nil
  then show ?case by (simp add: survivors_def write_all_def List.map_filter_simps)
next
  case (Cons h hs)
  from Cons.prems have nf: "\<not> parse_fails up h"
    by (auto simp: collect_href_eq split: if_splits)
  let ?u1 = "case candidate_of up h of None \<Rightarrow> u | Some kc \<Rightarrow> keep_longest kc u"
  let ?s1 = "case collect_write up h of None \<Rightarrow> sk | Some w \<Rightarrow> AList.update (fst w) (snd w) sk"
  from Cons.prems nf have "fold_err (collect_href up) hs (?u1, ?s1) = Inr (u', sk')"
    by (simp add: collect_href_eq)
  from Cons.IH [OF this] nf show ?case
    by (auto simp: survivors_def write_all_def List.map_filter_simps split: option.splits)
qed

lemma collect_fold_total:
  "(\<forall>h \<in> set hrefs. \<not> parse_fails up h) \<Longrightarrow> \<exists>st. fold_err (collect_href up) hrefs (u, sk) = Inr st"
  by (induction hrefs arbitrary: u sk) (auto simp: collect_href_eq)

lemma collect_fold_fails:
  "h \<in> set hrefs \<Longrightarrow> parse_fails up h \<Longrightarrow> \<exists>e. fold_err (collect_href up) hrefs st = Inl e"
proof (induction hrefs arbitrary: st)
  case Nil
  then show ?case by simp
next
  case (Cons x xs)
  obtain u sk where st: "st = (u, sk)" by (cases st)
  show ?case
  proof (cases "parse_fails up x")
    case True
    then show ?thesis by (simp add: st collect_href_eq)
  next
    case False
    then have "h \<in> set xs" using Cons.prems by auto
    then show ?thesis using Cons.IH Cons.prems(2) False by (simp add: st collect_href_eq)
  qed
qed

lemma match_candidate_eq:
  "match_candidate up regex keyword item (m, sk, inc) =
     (case up (fst item) of
        Inl e \<Rightarrow> Inl e
      | Inr p \<Rightarrow>
          Inr (case matched up regex item of None \<Rightarrow> m | Some c \<Rightarrow> m @ [c],
               case match_write up regex keyword item of None \<Rightarrow> sk | Some w \<Rightarrow> AList.update (fst w) (snd w) sk,
               if is_match regex (pr_path p) then inc @ [fst item] else inc))"
  by (auto simp: match_candidate_def matched_def match_write_def is_match_def Let_def
      split: sum.splits list.splits)

lemma match_fold_ok:
  "fold_err (match_candidate up regex keyword) items (m, sk, inc) = Inr (m', sk', inc') \<Longrightarrow>
     m' = m @ List.map_filter (matched up regex) items \<and>
     sk' = write_all (List.map_filter (match_write up regex keyword) items) sk \<and>
     inc' = inc @ map fst (filter (\<lambda>item. matched up regex item \<noteq> None) items) \<and>
     (\<forall>item \<in> set items. \<not> isl (up (fst item)))"
proof (induction items arbitrary: m sk inc)
  case Nil
  then show ?case by (simp add: write_all_def List.map_filter_simps)
next
  case (Cons item items)
  from Cons.prems obtain p where p: "up (fst item) = Inr p"
    by (auto simp: match_candidate_eq split: sum.splits)
  let ?m1 = "case matched up regex item of None \<Rightarrow> m | Some c \<Rightarrow> m @ [c]"
  let ?s1 = "case match_write up regex keyword item of None \<Rightarrow> sk | Some w \<Rightarrow> AList.update (fst w) (snd w) sk"
  let ?i1 = "if is_match regex (pr_path p) then inc @ [fst item] else inc"
  from Cons.prems p have "fold_err (match_candidate up regex keyword) items (?m1, ?s1, ?i1) = Inr (m', sk', inc')"
    by (simp add: match_candidate_eq)
  from Cons.IH [OF this] p show ?case
    by (auto simp: write_all_def List.map_filter_simps matched_def split: option.splits)
qed

lemma match_fold_total:
  "(\<forall>item \<in> set items. \<not> isl (up (fst item))) \<Longrightarrow>
     \<exists>st'. fold_err (match_candidate up regex keyword) items st = Inr st'"
proof (induction items arbitrary: st)
  case Nil
  show ?case by (rule exI [of _ st]) simp
next
  case (Cons item items)
  obtain m sk inc where st: "st = (m, sk, inc)" by (metis prod_cases3)
  from Cons.prems obtain p where p: "up (fst item) = Inr p" by (cases "up (fst item)") auto
  have "\<forall>item \<in> set items. \<not> isl (up (fst item))" using Cons.prems by simp
  from Cons.IH [OF this] show ?case by (simp add: st match_candidate_eq p)
qed

lemma process_level_ok:
  assumes "process_level up regex keyword hrefs = Inr (tot, matching, dbg)"
  shows "\<exists>unique_urls skip.
           fold_err (collect_href up) hrefs ([], []) = Inr (unique_urls, skip) \<and>
           unique_urls = fold keep_longest (survivors up hrefs) [] \<and>
           skip = write_all (List.map_filter (collect_write up) hrefs) [] \<and>
           tot = length unique_urls \<and>
           matching = List.map_filter (matched up regex) unique_urls \<and>
           skipped dbg = write_all (List.map_filter (match_write up regex keyword) unique_urls) skip \<and>
           included dbg = map fst (filter (\<lambda>item. matched up regex item \<noteq> None) unique_urls) \<and>
           total_urls dbg = length hrefs"
proof -
  from assms obtain u sk where c: "fold_err (collect_href up) hrefs ([], []) = Inr (u, sk)"
    by (auto simp: process_level_def split: sum.splits)
  from assms c obtain m' sk' inc' where
    m: "fold_err (match_candidate up regex keyword) u ([], sk, []) = Inr (m', sk', inc')"
    by (auto simp: process_level_def split: sum.splits)
  from assms c m have r: "tot = length u" "matching = m'"
    "dbg = \<lparr>total_urls = length hrefs, skipped = sk', included = inc'\<rparr>"
    by (auto simp: process_level_def)
  from collect_fold_ok [OF c] match_fold_ok [OF m] r c show ?thesis by auto
qed

lemma process_level_from_pool:
  assumes "fold_err (collect_href up) hrefs ([], []) = Inr (unique_urls, skip)"
    and "\<forall>item \<in> set unique_urls. \<not> isl (up (fst item))"
  shows "process_level up regex keyword hrefs =
           Inr (length unique_urls, List.map_filter (matched up regex) unique_urls,
                \<lparr>total_urls = length hrefs,
                 skipped = write_all (List.map_filter (match_write up regex keyword) unique_urls) skip,
                 included = map fst (filter (\<lambda>item. matched up regex item \<noteq> None) unique_urls)\<rparr>)"
proof -
  from match_fold_total [OF assms(2)] obtain m' sk' inc' where
    m: "fold_err (match_candidate up regex keyword) unique_urls ([], skip, []) = Inr (m', sk', inc')"
    by (metis prod_cases3)
  from match_fold_ok [OF m] m assms(1) show ?thesis
    by (simp add: process_level_def)
qed

section \<open>The scenario of the two links under \<^verbatim>\<open>/fire\<close>\<close>

lemma parse_fire_report:
  "urlparse chk ''https://x.com/fire/report'' =
     Inr \<lparr>pr_scheme = ''https'', pr_netloc = ''x.com'', pr_path = ''/fire/report'',
          pr_params = '''', pr_query = '''', pr_fragment = ''''\<rparr>"
  by code_simp

lemma parse_fire:
  "urlparse chk ''https://x.com/fire'' =
     Inr \<lparr>pr_scheme = ''https'', pr_netloc = ''x.com'', pr_path = ''/fire'',
          pr_params = '''', pr_query = '''', pr_fragment = ''''\<rparr>"
  by code_simp

lemma is_match_fire_report: "is_match (AtBoundary # map Literal ''fire'' @ [AtBoundary]) ''/fire/report''"
  by code_simp

lemma search_fire: "re_search (AtBoundary # map Literal ''fire'' @ [AtBoundary]) ''/fire''"
  by code_simp

lemma not_match_fire: "\<not> is_match (AtBoundary # map Literal ''fire'' @ [AtBoundary]) ''/fire''"
  by code_simp

lemma fire_level:
  assumes pool: "fold_err (collect_href (urlparse chk)) hrefs ([], []) = Inr (unique_urls, skip)"
    and two: "unique_urls = [(''https://x.com/fire/report'', c1), (''https://x.com/fire'', c2)] \<or>
              unique_urls = [(''https://x.com/fire'', c2), (''https://x.com/fire/report'', c1)]"
  shows "process_level (urlparse chk) (AtBoundary # map Literal ''fire'' @ [AtBoundary]) ''fire'' hrefs =
           Inr (2, [c1\<lparr>cand_path := Some ''/fire/report''\<rparr>],
                \<lparr>total_urls = length hrefs,
                 skipped = AList.update ''https://x.com/fire'' (entire_path_reason ''fire'') skip,
                 included = [''https://x.com/fire/report'']\<rparr>)"
proof -
  let ?R = "AtBoundary # map Literal ''fire'' @ [AtBoundary]"
  have m1: "matched (urlparse chk) ?R (''https://x.com/fire/report'', c1) =
              Some (c1\<lparr>cand_path := Some ''/fire/report''\<rparr>)"
    using is_match_fire_report by (simp add: matched_def parse_fire_report)
  have m2: "matched (urlparse chk) ?R (''https://x.com/fire'', c2) = None"
    using not_match_fire by (simp add: matched_def parse_fire)
  have w1: "match_write (urlparse chk) ?R ''fire'' (''https://x.com/fire/report'', c1) = None"
    using is_match_fire_report by (simp add: match_write_def parse_fire_report is_match_def)
  have w2: "match_write (urlparse chk) ?R ''fire'' (''https://x.com/fire'', c2) =
              Some (''https://x.com/fire'', entire_path_reason ''fire'')"
    using not_match_fire search_fire by (simp add: match_write_def parse_fire)
  have ok: "\<forall>item \<in> set unique_urls. \<not> isl (urlparse chk (fst item))"
    using two by (auto simp: parse_fire parse_fire_report)
  show ?thesis
    unfolding process_level_from_pool [OF pool ok]
    using two m1 m2 w1 w2
    by (auto simp: List.map_filter_simps write_all_def)
qed

lemma fire_links_pool:
  "fold_err (collect_href (urlparse chk)) fire_links ([], []) =
     Inr ([(''https://x.com/fire/report'', stored ''https://x.com/fire/report'' ''Full report''),
           (''https://x.com/fire'', stored ''https://x.com/fire'' ''Fire'')],
          [(''https://facebook.com/sharer/sharer.php?u=x'', social_reason),
           (''https://x.com/fire?page=2'', ''Has query parameters'')])"
  by code_simp

text \<open>
  Claim C1.  Take a level whose links, once sharing links and links with a fragment
  or a query are dropped and duplicates are merged, leave exactly the two candidates
  \<^verbatim>\<open>https://x.com/fire/report\<close> and \<^verbatim>\<open>https://x.com/fire\<close>, and the keyword \<^verbatim>\<open>fire\<close>.
  Then \<^verbatim>\<open>/fire\<close> is excluded because the keyword is its entire path, and it still
  counts in the denominator: the level has 2 candidates, 1 match and ratio 1/2, and
  its matches are the \<^verbatim>\<open>/fire/report\<close> link alone.
\<close>

theorem fire_scenario:
  assumes pool: "fold_err (collect_href (urlparse chk)) hrefs ([], []) = Inr (unique_urls, skip)"
    and two: "unique_urls = [(''https://x.com/fire/report'', c1), (''https://x.com/fire'', c2)] \<or>
              unique_urls = [(''https://x.com/fire'', c2), (''https://x.com/fire/report'', c1)]"
  shows "search_keyword_in_hrefs (urlparse chk) [(level, hrefs)] ''fire'' =
           Inr (Some
             \<lparr>target_level = level,
              all_matches = [(level, [c1\<lparr>cand_path := Some ''/fire/report''\<rparr>])],
              best_matches = [c1\<lparr>cand_path := Some ''/fire/report''\<rparr>],
              level_stats = [(level, \<lparr>total_unique_urls = 2, matching_urls = 1, keyword_ratio = 1 / 2\<rparr>)],
              highest_ratio = 1 / 2,
              debug_infos =
                [(level, \<lparr>total_urls = length hrefs,
                           skipped = AList.update ''https://x.com/fire'' (entire_path_reason ''fire'') skip,
                           included = [''https://x.com/fire/report'']\<rparr>)]\<rparr>)"
proof -
  let ?R = "AtBoundary # map Literal ''fire'' @ [AtBoundary]"
  have "fold_err (level_step (urlparse chk) ?R ''fire'') [(level, hrefs)] ([], [], []) =
          Inr ([(level, \<lparr>total_unique_urls = 2, matching_urls = 1, keyword_ratio = 1 / 2\<rparr>)],
               [(level, [c1\<lparr>cand_path := Some ''/fire/report''\<rparr>])],
               [(level, \<lparr>total_urls = length hrefs,
                          skipped = AList.update ''https://x.com/fire'' (entire_path_reason ''fire'') skip,
                          included = [''https://x.com/fire/report'']\<rparr>)])"
    by (simp add: level_step_def fire_level [OF pool two] del: list.map)
  then show ?thesis
    unfolding search_keyword_in_hrefs_def keyword_regex_items
    by (simp add: sorted_desc_def Let_def)
qed

theorem fire_scenario_witness:
  "fold_err (collect_href (urlparse (\<lambda>_. True))) fire_links ([], []) =
     Inr ([(''https://x.com/fire/report'', stored ''https://x.com/fire/report'' ''Full report''),
           (''https://x.com/fire'', stored ''https://x.com/fire'' ''Fire'')],
          [(''https://facebook.com/sharer/sharer.php?u=x'', social_reason),
           (''https://x.com/fire?page=2'', ''Has query parameters'')]) \<and>
   search_keyword_in_hrefs (urlparse (\<lambda>_. True)) [(1, fire_links)] ''fire'' =
     Inr (Some
       \<lparr>target_level = 1,
        all_matches =
          [(1, [(stored ''https://x.com/fire/report'' ''Full report'')\<lparr>cand_path := Some ''/fire/report''\<rparr>])],
        best_matches = [(stored ''https://x.com/fire/report'' ''Full report'')\<lparr>cand_path := Some ''/fire/report''\<rparr>],
        level_stats = [(1, \<lparr>total_unique_urls = 2, matching_urls = 1, keyword_ratio = 1 / 2\<rparr>)],
        highest_ratio = 1 / 2,
        debug_infos =
          [(1, \<lparr>total_urls = 5,
                   skipped =
                     [(''https://facebook.com/sharer/sharer.php?u=x'', social_reason),
                      (''https://x.com/fire?page=2'', ''Has query parameters''),
                      (''https://x.com/fire'', entire_path_reason ''fire'')],
                   included = [''https://x.com/fire/report'']\<rparr>)]\<rparr>)"
proof -
  have len: "length fire_links = 5"
    by (simp add: fire_links_def)
  show ?thesis
    using fire_scenario [where chk = "\<lambda>_. True" and level = 1, OF fire_links_pool]
    by (simp add: fire_links_pool len)
qed

section \<open>The loop over the levels and the choice of the best level\<close>

lemma keep_longest_keys: "fst ` set (keep_longest kc u) = insert (fst kc) (fst ` set u)"
proof (cases "map_of u (fst kc)")
  case None
  then show ?thesis by (simp add: keep_longest_def AList.dom_update)
next
  case (Some old)
  then have "fst kc \<in> fst ` set u" by (metis domI dom_map_of_conv_image_fst)
  then show ?thesis
    using Some by (auto simp: keep_longest_def AList.dom_update)
qed

lemma keep_longest_distinct: "distinct (map fst u) \<Longrightarrow> distinct (map fst (keep_longest kc u))"
  by (simp add: keep_longest_def AList.distinct_update)

lemma fold_keep_longest_keys: "fst ` set (fold keep_longest cs u) = fst ` set cs \<union> fst ` set u"
  by (induction cs arbitrary: u) (auto simp: keep_longest_keys)

lemma fold_keep_longest_distinct:
  "distinct (map fst u) \<Longrightarrow> distinct (map fst (fold keep_longest cs u))"
  by (induction cs arbitrary: u) (auto simp: keep_longest_distinct)

lemma candidate_pool_empty: "(candidate_pool up hrefs = []) = (survivors up hrefs = [])"
proof
  assume "candidate_pool up hrefs = []"
  then have "fst ` set (survivors up hrefs) = {}"
    using fold_keep_longest_keys [of "survivors up hrefs" "[]"] by (simp add: candidate_pool_def)
  then show "survivors up hrefs = []" by simp
next
  assume "survivors up hrefs = []"
  then show "candidate_pool up hrefs = []" by (simp add: candidate_pool_def)
qed

lemma candidate_pool_distinct: "distinct (map fst (candidate_pool up hrefs))"
  by (simp add: candidate_pool_def fold_keep_longest_distinct)

lemma process_level_pool:
  assumes "process_level up regex keyword hrefs = Inr (tot, matching, dbg)"
  shows "tot = length (candidate_pool up hrefs)"
    and "matching = List.map_filter (matched up regex) (candidate_pool up hrefs)"
  using process_level_ok [OF assms] by (auto simp: candidate_pool_def)

lemma level_step_eq:
  "level_step up regex keyword (l, hs) (st, ma, db) =
     (case process_level up regex keyword hs of
        Inl e \<Rightarrow> Inl e
      | Inr (tot, m, d) \<Rightarrow>
          Inr (if tot > 0
               then AList.update l \<lparr>total_unique_urls = tot, matching_urls = length m,
                                     keyword_ratio = of_nat (length m) / of_nat tot\<rparr> st
               else st,
               if tot > 0 \<and> m \<noteq> [] then AList.update l m ma else ma,
               AList.update l d db))"
  by (auto simp: level_step_def Let_def split: sum.splits)

lemma level_fold_ok:
  assumes "fold_err (level_step up regex keyword) lh (st, ma, db) = Inr (st', ma', db')"
    and "distinct (map fst lh)"
  shows "(\<forall>e \<in> set lh. \<not> isl (process_level up regex keyword (snd e))) \<and>
         (distinct (map fst st) \<longrightarrow> distinct (map fst st')) \<and>
         (\<forall>l. map_of st' l =
            (case map_of lh l of
               None \<Rightarrow> map_of st l
             | Some hs \<Rightarrow>
                 if candidate_pool up hs = [] then map_of st l
                 else Some \<lparr>total_unique_urls = length (candidate_pool up hs),
                            matching_urls = length (List.map_filter (matched up regex) (candidate_pool up hs)),
                            keyword_ratio =
                              of_nat (length (List.map_filter (matched up regex) (candidate_pool up hs))) /
                              of_nat (length (candidate_pool up hs))\<rparr>))"
  using assms
proof (induction lh arbitrary: st ma db)
  case Nil
  then show ?case by simp
next
  case (Cons e lh)
  obtain l hs where e: "e = (l, hs)" by (cases e)
  from Cons.prems(1) obtain tot m d where pl: "process_level up regex keyword hs = Inr (tot, m, d)"
    by (auto simp: e level_step_eq split: sum.splits)
  note pool = process_level_pool [OF pl]
  let ?st1 = "if tot > 0
               then AList.update l \<lparr>total_unique_urls = tot, matching_urls = length m,
                                     keyword_ratio = of_nat (length m) / of_nat tot\<rparr> st
               else st"
  let ?ma1 = "if tot > 0 \<and> m \<noteq> [] then AList.update l m ma else ma"
  from Cons.prems(1) pl have rest:
    "fold_err (level_step up regex keyword) lh (?st1, ?ma1, AList.update l d db) = Inr (st', ma', db')"
    by (simp add: e level_step_eq)
  have dl: "distinct (map fst lh)" and nl: "map_of lh l = None"
    using Cons.prems(2) by (auto simp: e map_of_eq_None_iff)
  note ih = Cons.IH [OF rest dl]
  have d1: "distinct (map fst st) \<longrightarrow> distinct (map fst ?st1)"
    by (simp add: AList.distinct_update)
  have "\<And>k. map_of st' k =
            (case map_of (e # lh) k of
               None \<Rightarrow> map_of st k
             | Some hs \<Rightarrow>
                 if candidate_pool up hs = [] then map_of st k
                 else Some \<lparr>total_unique_urls = length (candidate_pool up hs),
                            matching_urls = length (List.map_filter (matched up regex) (candidate_pool up hs)),
                            keyword_ratio =
                              of_nat (length (List.map_filter (matched up regex) (candidate_pool up hs))) /
                              of_nat (length (candidate_pool up hs))\<rparr>)"
  proof -
    fix k
    show "?thesis k"
    proof (cases "k = l")
      case True
      then show ?thesis
        using ih nl pool by (simp add: e AList.update_conv)
    next
      case False
      then show ?thesis
        using ih by (auto simp: e AList.update_conv split: option.splits)
    qed
  qed
  then show ?case using ih d1 pl by (auto simp: e)
qed

lemma sorted_desc_head:
  assumes "sorted_desc key xs = first # rest"
  shows "first \<in> set xs \<and> (\<forall>x \<in> set xs. key x \<le> key first)"
proof -
  from assms have eq: "sort_key key (rev xs) = rev rest @ [first]"
    by (metis rev.simps(2) rev_rev_ident sorted_desc_def)
  have "sorted (map key (rev rest @ [first]))"
    using sorted_sort_key [of key "rev xs"] by (simp add: eq)
  then have le: "\<forall>x \<in> set (rev rest @ [first]). key x \<le> key first"
    by (auto simp: sorted_append)
  have "set (rev rest @ [first]) = set xs"
    using set_sort [of key "rev xs"] by (simp add: eq)
  then show ?thesis using le by auto
qed

lemma sorted_desc_nonempty: "xs \<noteq> [] \<Longrightarrow> sorted_desc key xs \<noteq> []"
  by (metis length_0_conv length_rev length_sort sorted_desc_def)

lemma fold_min_Min: "fold min ls (l :: nat) = Min (set (l # ls))"
  using Min.set_eq_fold [of l ls] by simp

lemma search_result_cases:
  assumes "search_keyword_in_hrefs up lh keyword = Inr res"
  obtains st ma db where
    "fold_err (level_step up (AtBoundary # map Literal keyword @ [AtBoundary]) keyword) lh ([], [], []) =
       Inr (st, ma, db)"
    "res = None \<longleftrightarrow> st = []"
    "\<And>r. res = Some r \<Longrightarrow>
       level_stats r = st \<and> all_matches r = ma \<and> debug_infos r = db \<and>
       best_matches r = (case map_of ma (target_level r) of None \<Rightarrow> [] | Some m \<Rightarrow> m) \<and>
       (\<exists>first rest. sorted_desc (\<lambda>x. keyword_ratio (snd x)) st = first # rest \<and>
          highest_ratio r = keyword_ratio (snd first) \<and>
          target_level r =
            (case map fst (filter (\<lambda>x. keyword_ratio (snd x) = keyword_ratio (snd first)) st) of
               [] \<Rightarrow> fst first | l # ls \<Rightarrow> fold min ls l))"
proof -
  let ?R = "AtBoundary # map Literal keyword @ [AtBoundary]"
  from assms obtain st ma db where
    f: "fold_err (level_step up ?R keyword) lh ([], [], []) = Inr (st, ma, db)"
    unfolding search_keyword_in_hrefs_def keyword_regex_items
    by (auto split: sum.splits simp del: list.map)
  show thesis
  proof (cases "st = []")
    case True
    then have "res = None"
      using assms f unfolding search_keyword_in_hrefs_def keyword_regex_items
      by (simp del: list.map)
    then show ?thesis using that [OF f] True by simp
  next
    case False
    then obtain first rest where s: "sorted_desc (\<lambda>x. keyword_ratio (snd x)) st = first # rest"
      using sorted_desc_nonempty [OF False] by (meson list.exhaust)
    from assms f False s have "res = Some
        \<lparr>target_level =
           (case map fst (filter (\<lambda>x. keyword_ratio (snd x) = keyword_ratio (snd first)) st) of
              [] \<Rightarrow> fst first | l # ls \<Rightarrow> fold min ls l),
         all_matches = ma,
         best_matches =
           (case map_of ma
              (case map fst (filter (\<lambda>x. keyword_ratio (snd x) = keyword_ratio (snd first)) st) of
                 [] \<Rightarrow> fst first | l # ls \<Rightarrow> fold min ls l) of None \<Rightarrow> [] | Some m \<Rightarrow> m),
         level_stats = st, highest_ratio = keyword_ratio (snd first), debug_infos = db\<rparr>"
      unfolding search_keyword_in_hrefs_def keyword_regex_items
      by (simp add: Let_def del: list.map)
    then show ?thesis using that [OF f] False s by auto
  qed
qed

lemma level_fold_from_empty:
  assumes "fold_err (level_step up regex keyword) lh ([], [], []) = Inr (st, ma, db)"
    and "distinct (map fst lh)"
  shows "distinct (map fst st)"
    and "\<And>l. map_of st l =
            (case map_of lh l of
               None \<Rightarrow> None
             | Some hs \<Rightarrow>
                 if candidate_pool up hs = [] then None
                 else Some \<lparr>total_unique_urls = length (candidate_pool up hs),
                            matching_urls = length (List.map_filter (matched up regex) (candidate_pool up hs)),
                            keyword_ratio =
                              of_nat (length (List.map_filter (matched up regex) (candidate_pool up hs))) /
                              of_nat (length (candidate_pool up hs))\<rparr>)"
  using level_fold_ok [OF assms] by (simp_all split: option.splits)

lemma level_fold_distinct:
  "fold_err (level_step up regex keyword) lh (st, ma, db) = Inr (st', ma', db') \<Longrightarrow>
   distinct (map fst st) \<Longrightarrow> distinct (map fst st')"
proof (induction lh arbitrary: st ma db)
  case Nil
  then show ?case by simp
next
  case (Cons e lh)
  obtain l hs where e: "e = (l, hs)" by (cases e)
  from Cons.prems(1) obtain tot m d where pl: "process_level up regex keyword hs = Inr (tot, m, d)"
    by (auto simp: e level_step_eq split: sum.splits)
  let ?st1 = "if tot > 0
               then AList.update l \<lparr>total_unique_urls = tot, matching_urls = length m,
                                     keyword_ratio = of_nat (length m) / of_nat tot\<rparr> st
               else st"
  let ?ma1 = "if tot > 0 \<and> m \<noteq> [] then AList.update l m ma else ma"
  from Cons.prems(1) pl have rest:
    "fold_err (level_step up regex keyword) lh (?st1, ?ma1, AList.update l d db) = Inr (st', ma', db')"
    by (simp add: e level_step_eq)
  have "distinct (map fst ?st1)" using Cons.prems(2) by (simp add: AList.distinct_update)
  from Cons.IH [OF rest this] show ?case .
qed

lemma projection_result:
  "map_sum id (map_option f) x = Inr (Some v) \<Longrightarrow> \<exists>r. x = Inr (Some r) \<and> f r = v"
  by (cases x) auto

lemma tie_levels_eval:
  "map_sum id (map_option (\<lambda>r. (target_level r, highest_ratio r,
       map (\<lambda>e. (fst e, keyword_ratio (snd e))) (level_stats r))))
     (search_keyword_in_hrefs (urlparse (\<lambda>_. True)) tie_levels ''fire'') =
   Inr (Some (2, 1, [(3, 1), (1, 1 / 2), (2, 1)]))"
  by code_simp

text \<open>
  Claim C7.  Whenever the search returns a result, the selected level is a scored
  level whose ratio is the highest ratio, no scored level has a greater ratio, and
  every scored level with that same ratio is at the selected depth or deeper: among
  the levels that tie for the maximum, the smallest depth is selected.
\<close>

theorem best_level_selected:
  assumes "search_keyword_in_hrefs up level_hrefs keyword = Inr (Some r)"
  shows "(\<exists>s. map_of (level_stats r) (target_level r) = Some s \<and> keyword_ratio s = highest_ratio r) \<and>
         (\<forall>e \<in> set (level_stats r).
            keyword_ratio (snd e) \<le> highest_ratio r \<and>
            (keyword_ratio (snd e) = highest_ratio r \<longrightarrow> target_level r \<le> fst e))"
proof -
  from assms obtain st ma db first rest where
    f: "fold_err (level_step up (AtBoundary # map Literal keyword @ [AtBoundary]) keyword) level_hrefs
          ([], [], []) = Inr (st, ma, db)"
    and st: "level_stats r = st"
    and s: "sorted_desc (\<lambda>x. keyword_ratio (snd x)) st = first # rest"
    and hi: "highest_ratio r = keyword_ratio (snd first)"
    and tg: "target_level r =
            (case map fst (filter (\<lambda>x. keyword_ratio (snd x) = keyword_ratio (snd first)) st) of
               [] \<Rightarrow> fst first | l # ls \<Rightarrow> fold min ls l)"
    by (elim search_result_cases) blast
  have dist: "distinct (map fst st)"
    using level_fold_distinct [OF f] by simp
  from sorted_desc_head [OF s] have first: "first \<in> set st"
    and mx: "\<forall>x \<in> set st. keyword_ratio (snd x) \<le> keyword_ratio (snd first)"
    by auto
  let ?same = "map fst (filter (\<lambda>x. keyword_ratio (snd x) = keyword_ratio (snd first)) st)"
  have "fst first \<in> set ?same" using first by auto
  then obtain l ls where same: "?same = l # ls" by (cases ?same) auto
  then have tmin: "target_level r = Min (set ?same)"
    using tg by (simp add: fold_min_Min)
  have ne: "set ?same \<noteq> {}" using same by simp
  have "target_level r \<in> set ?same"
    unfolding tmin by (rule Min_in) (use ne in auto)
  then obtain e where e: "e \<in> set st" "fst e = target_level r"
    "keyword_ratio (snd e) = keyword_ratio (snd first)"
    by auto
  then have "map_of st (target_level r) = Some (snd e)"
    using dist by (metis map_of_is_SomeI prod.collapse)
  then have a: "\<exists>s. map_of (level_stats r) (target_level r) = Some s \<and> keyword_ratio s = highest_ratio r"
    using e(3) st hi by auto
  have b: "\<forall>e \<in> set (level_stats r).
            keyword_ratio (snd e) \<le> highest_ratio r \<and>
            (keyword_ratio (snd e) = highest_ratio r \<longrightarrow> target_level r \<le> fst e)"
  proof
    fix x assume x: "x \<in> set (level_stats r)"
    then have le: "keyword_ratio (snd x) \<le> highest_ratio r" using mx st hi by auto
    have "keyword_ratio (snd x) = highest_ratio r \<longrightarrow> target_level r \<le> fst x"
    proof
      assume "keyword_ratio (snd x) = highest_ratio r"
      then have "fst x \<in> set ?same" using x st hi by auto
      then show "target_level r \<le> fst x" unfolding tmin by (intro Min_le) auto
    qed
    then show "keyword_ratio (snd x) \<le> highest_ratio r \<and>
            (keyword_ratio (snd x) = highest_ratio r \<longrightarrow> target_level r \<le> fst x)"
      using le by simp
  qed
  from a b show ?thesis by simp
qed

theorem best_level_selected_witness:
  "\<exists>r. search_keyword_in_hrefs (urlparse (\<lambda>_. True)) tie_levels ''fire'' = Inr (Some r) \<and>
       (target_level r, highest_ratio r, map (\<lambda>e. (fst e, keyword_ratio (snd e))) (level_stats r)) =
         (2, 1, [(3, 1), (1, 1 / 2), (2, 1)]) \<and>
       (\<exists>s. map_of (level_stats r) (target_level r) = Some s \<and> keyword_ratio s = highest_ratio r) \<and>
       (\<forall>e \<in> set (level_stats r).
          keyword_ratio (snd e) \<le> highest_ratio r \<and>
          (keyword_ratio (snd e) = highest_ratio r \<longrightarrow> target_level r \<le> fst e))"
proof -
  from projection_result [OF tie_levels_eval] obtain r where
    r: "search_keyword_in_hrefs (urlparse (\<lambda>_. True)) tie_levels ''fire'' = Inr (Some r)"
    and v: "(target_level r, highest_ratio r, map (\<lambda>e. (fst e, keyword_ratio (snd e))) (level_stats r)) =
         (2, 1, [(3, 1), (1, 1 / 2), (2, 1)])"
    by (elim exE conjE)
  note sel = best_level_selected [OF r]
  show ?thesis
    by (rule exI [of _ r]) (intro conjI r v sel [THEN conjunct1] sel [THEN conjunct2])
qed

lemma partly_empty_eval:
  "map_sum id (map_option (\<lambda>r. (target_level r,
       map (\<lambda>e. (fst e, total_unique_urls (snd e), matching_urls (snd e))) (level_stats r))))
     (search_keyword_in_hrefs (urlparse (\<lambda>_. True)) partly_empty_levels ''fire'') =
   Inr (Some (1, [(1, 1, 0)]))"
  by code_simp

lemma level_stats_of_result:
  assumes "search_keyword_in_hrefs up level_hrefs keyword = Inr res"
    and "distinct (map fst level_hrefs)"
  shows "(res = None) = (\<forall>e \<in> set level_hrefs. candidate_pool up (snd e) = []) \<and>
         (\<forall>r. res = Some r \<longrightarrow>
            (\<forall>e \<in> set level_hrefs.
               (map_of (level_stats r) (fst e) = None) = (candidate_pool up (snd e) = [])) \<and>
            (\<forall>e \<in> set (level_stats r). 0 < total_unique_urls (snd e)))"
proof -
  from assms(1) obtain st ma db where
    f: "fold_err (level_step up (AtBoundary # map Literal keyword @ [AtBoundary]) keyword) level_hrefs
          ([], [], []) = Inr (st, ma, db)"
    and none: "res = None \<longleftrightarrow> st = []"
    and some: "\<And>r. res = Some r \<Longrightarrow> level_stats r = st"
    by (elim search_result_cases) blast
  note dist = level_fold_from_empty(1) [OF f assms(2)]
  note look = level_fold_from_empty(2) [OF f assms(2)]
  have entry: "\<And>e. e \<in> set level_hrefs \<Longrightarrow>
      (map_of st (fst e) = None) = (candidate_pool up (snd e) = [])"
  proof -
    fix e assume "e \<in> set level_hrefs"
    then have "map_of level_hrefs (fst e) = Some (snd e)"
      using assms(2) by (metis map_of_is_SomeI prod.collapse)
    then show "(map_of st (fst e) = None) = (candidate_pool up (snd e) = [])"
      by (simp add: look)
  qed
  have "(st = []) = (\<forall>l. map_of st l = None)"
    by (metis map_of_eq_None_iff list.set_intros(1) list.exhaust image_eqI map_of.simps(1))
  also have "\<dots> = (\<forall>e \<in> set level_hrefs. candidate_pool up (snd e) = [])"
  proof
    assume "\<forall>l. map_of st l = None"
    then show "\<forall>e \<in> set level_hrefs. candidate_pool up (snd e) = []"
      using entry by blast
  next
    assume a: "\<forall>e \<in> set level_hrefs. candidate_pool up (snd e) = []"
    show "\<forall>l. map_of st l = None"
    proof
      fix l
      show "map_of st l = None"
      proof (cases "map_of level_hrefs l")
        case None
        then show ?thesis by (simp add: look)
      next
        case (Some hs)
        then have "(l, hs) \<in> set level_hrefs" by (rule map_of_SomeD)
        then have "candidate_pool up hs = []" using a by force
        then show ?thesis using Some by (simp add: look)
      qed
    qed
  qed
  finally have first: "(res = None) = (\<forall>e \<in> set level_hrefs. candidate_pool up (snd e) = [])"
    using none by simp
  have pos: "\<forall>e \<in> set st. 0 < total_unique_urls (snd e)"
  proof
    fix e assume e: "e \<in> set st"
    then have m: "map_of st (fst e) = Some (snd e)"
      using dist by (metis map_of_is_SomeI prod.collapse)
    show "0 < total_unique_urls (snd e)"
    proof (cases "map_of level_hrefs (fst e)")
      case None
      then show ?thesis using m by (simp add: look)
    next
      case (Some hs)
      show ?thesis
      proof (cases "candidate_pool up hs = []")
        case True
        then show ?thesis using m Some by (simp add: look)
      next
        case False
        then have "snd e = \<lparr>total_unique_urls = length (candidate_pool up hs),
            matching_urls = length (List.map_filter
               (matched up (AtBoundary # map Literal keyword @ [AtBoundary])) (candidate_pool up hs)),
            keyword_ratio =
              of_nat (length (List.map_filter
                 (matched up (AtBoundary # map Literal keyword @ [AtBoundary])) (candidate_pool up hs))) /
              of_nat (length (candidate_pool up hs))\<rparr>"
          using m Some by (simp add: look)
        then have "total_unique_urls (snd e) = length (candidate_pool up hs)"
          by (metis level_stat.select_convs(1))
        then show ?thesis using False by simp
      qed
    qed
  qed
  show ?thesis using first entry pos some by auto
qed

lemma returned_level_stats:
  assumes "search_keyword_in_hrefs up level_hrefs keyword = Inr (Some r)"
    and "distinct (map fst level_hrefs)"
  shows "(\<forall>e \<in> set level_hrefs.
            (map_of (level_stats r) (fst e) = None) = (candidate_pool up (snd e) = [])) \<and>
         (\<forall>e \<in> set (level_stats r). 0 < total_unique_urls (snd e))"
  using level_stats_of_result [OF assms] by blast

section \<open>Deduplication\<close>

lemma first_longest_single: "first_longest_at [x] 0"
  by (simp add: first_longest_at_def)

lemma first_longest_replace:
  assumes "first_longest_at g i"
    and "length (cand_text (snd x)) > length (cand_text (snd (g ! i)))"
  shows "first_longest_at (g @ [x]) (length g)"
  using assms by (auto simp: first_longest_at_def list_all_iff)

lemma first_longest_keep:
  assumes "first_longest_at g i"
    and "\<not> length (cand_text (snd x)) > length (cand_text (snd (g ! i)))"
  shows "first_longest_at (g @ [x]) i"
  using assms by (auto simp: first_longest_at_def list_all_iff nth_append)

lemma fold_keep_longest_snoc: "fold keep_longest (cs @ [x]) u = keep_longest x (fold keep_longest cs u)"
  by simp

lemma keep_longest_other: "k \<noteq> fst x \<Longrightarrow> map_of (keep_longest x u) k = map_of u k"
  by (simp add: keep_longest_def AList.update_conv')

lemma keep_longest_new: "map_of u (fst x) = None \<Longrightarrow> map_of (keep_longest x u) (fst x) = Some (snd x)"
  by (simp add: keep_longest_def AList.update_conv')

lemma keep_longest_longer:
  "map_of u (fst x) = Some old \<Longrightarrow> length (cand_text (snd x)) > length (cand_text old) \<Longrightarrow>
   map_of (keep_longest x u) (fst x) = Some (snd x)"
  by (simp add: keep_longest_def AList.update_conv')

lemma keep_longest_not_longer:
  "map_of u (fst x) = Some old \<Longrightarrow> \<not> length (cand_text (snd x)) > length (cand_text old) \<Longrightarrow>
   keep_longest x u = u"
  by (simp add: keep_longest_def)

lemma fold_keep_longest_lookup:
  "(filter (\<lambda>e. fst e = k) cs = [] \<longrightarrow> map_of (fold keep_longest cs []) k = None) \<and>
   (filter (\<lambda>e. fst e = k) cs \<noteq> [] \<longrightarrow>
      (\<exists>i. first_longest_at (filter (\<lambda>e. fst e = k) cs) i \<and>
           map_of (fold keep_longest cs []) k = Some (snd (filter (\<lambda>e. fst e = k) cs ! i))))"
proof (induction cs arbitrary: k rule: rev_induct)
  case Nil
  show ?case by simp
next
  case (snoc x cs)
  let ?U = "fold keep_longest cs []"
  let ?g = "filter (\<lambda>e. fst e = k) cs"
  show ?case
  proof (cases "k = fst x")
    case False
    then have "filter (\<lambda>e. fst e = k) (cs @ [x]) = ?g" by auto
    then show ?thesis
      using snoc.IH [of k] False by (simp add: keep_longest_other)
  next
    case True
    then have g': "filter (\<lambda>e. fst e = k) (cs @ [x]) = ?g @ [x]" by simp
    show ?thesis
    proof (cases "?g = []")
      case True
      then have "map_of ?U (fst x) = None" using snoc.IH [of k] \<open>k = fst x\<close> by simp
      then have "map_of (keep_longest x ?U) k = Some (snd x)"
        using \<open>k = fst x\<close> by (simp add: keep_longest_new)
      moreover have "first_longest_at (?g @ [x]) 0"
        using True by (simp add: first_longest_single)
      moreover have "(?g @ [x]) ! 0 = x" using True by simp
      ultimately show ?thesis
        unfolding fold_keep_longest_snoc g' by (metis snoc_eq_iff_butlast)
    next
      case False
      then obtain i where i: "first_longest_at ?g i" "map_of ?U k = Some (snd (?g ! i))"
        using snoc.IH [of k] by blast
      have il: "i < length ?g" using i(1) by (simp add: first_longest_at_def)
      show ?thesis
      proof (cases "length (cand_text (snd x)) > length (cand_text (snd (?g ! i)))")
        case True
        have "map_of (keep_longest x ?U) k = Some (snd x)"
          using keep_longest_longer [of ?U x "snd (?g ! i)"] i(2) True \<open>k = fst x\<close> by simp
        moreover have "first_longest_at (?g @ [x]) (length ?g)"
          using first_longest_replace [OF i(1) True] .
        moreover have "(?g @ [x]) ! (length ?g) = x" by simp
        ultimately show ?thesis
          unfolding fold_keep_longest_snoc g' by (metis snoc_eq_iff_butlast)
      next
        case False
        have "keep_longest x ?U = ?U"
          using keep_longest_not_longer [of ?U x "snd (?g ! i)"] i(2) False \<open>k = fst x\<close> by simp
        moreover have "first_longest_at (?g @ [x]) i"
          using first_longest_keep [OF i(1) False] .
        moreover have "(?g @ [x]) ! i = ?g ! i" using il by (simp add: nth_append)
        ultimately show ?thesis
          unfolding fold_keep_longest_snoc g' using i(2) by (metis snoc_eq_iff_butlast)
      qed
    qed
  qed
qed

lemma distinct_key_once:
  "distinct (map fst u) \<Longrightarrow> map_of u k = Some v \<Longrightarrow> length (filter (\<lambda>e. fst e = k) u) = 1"
proof (induction u)
  case Nil
  then show ?case by simp
next
  case (Cons e u)
  show ?case
  proof (cases "fst e = k")
    case True
    then have "k \<notin> fst ` set u" using Cons.prems(1) by auto
    then have "filter (\<lambda>e. fst e = k) u = []" by (auto simp: filter_empty_conv)
    then show ?thesis using True by simp
  next
    case False
    then have "map_of u k = Some v" using Cons.prems(2) by (cases e) auto
    then show ?thesis using Cons.IH Cons.prems(1) False by simp
  qed
qed

text \<open>
  Claim C6.  Take a level on which the first loop ends without raising, and a
  normalized URL \<open>k\<close> that at least one surviving link of the level has.  Then
  \<^verbatim>\<open>unique_urls\<close> holds exactly one entry under \<open>k\<close>, and it is the entry of one of the
  surviving links with that normalized URL: one whose label is at least as long as
  every competing label and strictly longer than every earlier competing label,
  that is, the longest label, and the first seen among labels of equal length.
\<close>

theorem longest_label_kept:
  fixes up :: "string \<Rightarrow> py_error + parse_result"
  defines "rivals k hrefs \<equiv> filter (\<lambda>e. fst e = k) (survivors up hrefs)"
  assumes loop: "fold_err (collect_href up) hrefs ([], []) = Inr (unique_urls, skip)"
    and some: "rivals k hrefs \<noteq> []"
  shows "length (filter (\<lambda>e. fst e = k) unique_urls) = 1 \<and>
         (\<exists>i < length (rivals k hrefs).
            map_of unique_urls k = Some (snd (rivals k hrefs ! i)) \<and>
            (\<forall>j < length (rivals k hrefs).
               length (cand_text (snd (rivals k hrefs ! j))) \<le> length (cand_text (snd (rivals k hrefs ! i)))) \<and>
            (\<forall>j < i.
               length (cand_text (snd (rivals k hrefs ! j))) < length (cand_text (snd (rivals k hrefs ! i)))))"
proof -
  have u: "unique_urls = fold keep_longest (survivors up hrefs) []"
    using collect_fold_ok [OF loop] by simp
  from fold_keep_longest_lookup [of k "survivors up hrefs"] some
  obtain i where i: "first_longest_at (rivals k hrefs) i"
    "map_of unique_urls k = Some (snd (rivals k hrefs ! i))"
    unfolding rivals_def u by blast
  have d: "distinct (map fst unique_urls)"
    unfolding u by (simp add: fold_keep_longest_distinct)
  have one: "length (filter (\<lambda>e. fst e = k) unique_urls) = 1"
    using distinct_key_once [OF d i(2)] .
  have il: "i < length (rivals k hrefs)" using i(1) by (simp add: first_longest_at_def)
  have mx: "\<forall>j < length (rivals k hrefs).
               length (cand_text (snd (rivals k hrefs ! j))) \<le> length (cand_text (snd (rivals k hrefs ! i)))"
    using i(1) by (auto simp: first_longest_at_def list_all_length)
  have fs: "\<forall>j < i.
               length (cand_text (snd (rivals k hrefs ! j))) < length (cand_text (snd (rivals k hrefs ! i)))"
    using i(1) by (auto simp: first_longest_at_def list_all_length)
  show ?thesis using one il i(2) mx fs by blast
qed

lemma rival_links_pool:
  "fold_err (collect_href (urlparse (\<lambda>_. True))) rival_links ([], []) =
     Inr ([(''https://x.com/a'', stored ''https://x.com/a'' ''Latest news''),
           (''https://x.com/b'', stored ''https://x.com/b'' ''Elsewhere'')],
          [(''https://x.com/a?x=1'', ''Has query parameters'')])"
  by code_simp

lemma rival_links_rivals:
  "filter (\<lambda>e. fst e = ''https://x.com/a'') (survivors (urlparse (\<lambda>_. True)) rival_links) =
     [(''https://x.com/a'', stored ''https://x.com/a'' ''News''),
      (''https://x.com/a'', stored ''https://x.com/a'' ''Latest news''),
      (''https://x.com/a'', stored ''https://x.com/a'' ''Other items'')]"
  by code_simp

theorem longest_label_kept_witness:
  "fold_err (collect_href (urlparse (\<lambda>_. True))) rival_links ([], []) =
     Inr ([(''https://x.com/a'', stored ''https://x.com/a'' ''Latest news''),
           (''https://x.com/b'', stored ''https://x.com/b'' ''Elsewhere'')],
          [(''https://x.com/a?x=1'', ''Has query parameters'')]) \<and>
   filter (\<lambda>e. fst e = ''https://x.com/a'') (survivors (urlparse (\<lambda>_. True)) rival_links) =
     [(''https://x.com/a'', stored ''https://x.com/a'' ''News''),
      (''https://x.com/a'', stored ''https://x.com/a'' ''Latest news''),
      (''https://x.com/a'', stored ''https://x.com/a'' ''Other items'')] \<and>
   length (filter (\<lambda>e. fst e = ''https://x.com/a'')
     [(''https://x.com/a'', stored ''https://x.com/a'' ''Latest news''),
      (''https://x.com/b'', stored ''https://x.com/b'' ''Elsewhere'')]) = 1 \<and>
   (\<exists>i < 3. map_of [(''https://x.com/a'', stored ''https://x.com/a'' ''Latest news''),
                    (''https://x.com/b'', stored ''https://x.com/b'' ''Elsewhere'')] ''https://x.com/a'' =
              Some (snd ([(''https://x.com/a'', stored ''https://x.com/a'' ''News''),
                          (''https://x.com/a'', stored ''https://x.com/a'' ''Latest news''),
                          (''https://x.com/a'', stored ''https://x.com/a'' ''Other items'')] ! i)) \<and> i = 1)"
proof -
  have ne: "filter (\<lambda>e. fst e = ''https://x.com/a'') (survivors (urlparse (\<lambda>_. True)) rival_links) \<noteq> []"
    by (simp add: rival_links_rivals)
  note kept = longest_label_kept [OF rival_links_pool ne]
  have one: "length (filter (\<lambda>e. fst e = ''https://x.com/a'')
     [(''https://x.com/a'', stored ''https://x.com/a'' ''Latest news''),
      (''https://x.com/b'', stored ''https://x.com/b'' ''Elsewhere'')]) = 1"
    using kept by (rule conjunct1)
  show ?thesis
    using one by (simp add: rival_links_pool rival_links_rivals)
qed

section \<open>The exclusion log\<close>

lemma write_all_lookup: "map_of (write_all ws sk) = map_of (rev ws @ sk)"
proof (induction ws arbitrary: sk)
  case Nil
  show ?case by (simp add: write_all_def)
next
  case (Cons w ws)
  have "write_all (w # ws) sk = write_all ws (AList.update (fst w) (snd w) sk)"
    by (simp add: write_all_def)
  moreover have "map_of (rev ws @ AList.update (fst w) (snd w) sk) = map_of (rev (w # ws) @ sk)"
    by (cases w) (simp add: map_of_append AList.update_conv')
  ultimately show ?case using Cons.IH by simp
qed

lemma write_all_distinct: "distinct (map fst sk) \<Longrightarrow> distinct (map fst (write_all ws sk))"
proof (induction ws arbitrary: sk)
  case Nil
  then show ?case by (simp add: write_all_def)
next
  case (Cons w ws)
  have "write_all (w # ws) sk = write_all ws (AList.update (fst w) (snd w) sk)"
    by (simp add: write_all_def)
  then show ?case using Cons by (simp add: AList.distinct_update)
qed

lemma write_all_append: "write_all (ws @ vs) sk = write_all vs (write_all ws sk)"
  by (simp add: write_all_def)

lemma process_level_log:
  assumes "process_level up regex keyword hrefs = Inr (tot, matching, dbg)"
  shows "skipped dbg = write_all (skip_writes up regex keyword hrefs) []"
  using process_level_ok [OF assms]
  by (auto simp: skip_writes_def write_all_append candidate_pool_def)

lemma level_fold_debug_lookup:
  assumes "fold_err (level_step up regex keyword) lh (st, ma, db) = Inr (st', ma', db')"
    and "distinct (map fst lh)"
  shows "map_of db' l =
           (case map_of lh l of
              None \<Rightarrow> map_of db l
            | Some hs \<Rightarrow>
                (case process_level up regex keyword hs of
                   Inl e \<Rightarrow> None
                 | Inr r \<Rightarrow> Some (snd (snd r))))"
  using assms
proof (induction lh arbitrary: st ma db)
  case Nil
  then show ?case by simp
next
  case (Cons e lh)
  obtain l0 hs0 where e: "e = (l0, hs0)" by (cases e)
  from Cons.prems(1) obtain tot m d where pl: "process_level up regex keyword hs0 = Inr (tot, m, d)"
    by (auto simp: e level_step_eq split: sum.splits)
  let ?st1 = "if tot > 0
               then AList.update l0 \<lparr>total_unique_urls = tot, matching_urls = length m,
                                     keyword_ratio = of_nat (length m) / of_nat tot\<rparr> st
               else st"
  let ?ma1 = "if tot > 0 \<and> m \<noteq> [] then AList.update l0 m ma else ma"
  from Cons.prems(1) pl have rest:
    "fold_err (level_step up regex keyword) lh (?st1, ?ma1, AList.update l0 d db) = Inr (st', ma', db')"
    by (simp add: e level_step_eq)
  have dl: "distinct (map fst lh)" and nl: "map_of lh l0 = None"
    using Cons.prems(2) by (auto simp: e map_of_eq_None_iff)
  note ih = Cons.IH [OF rest dl]
  show ?case
  proof (cases "l = l0")
    case True
    then show ?thesis using ih nl pl by (simp add: e AList.update_conv')
  next
    case False
    then show ?thesis using ih by (simp add: e AList.update_conv' split: option.splits)
  qed
qed

lemma level_fold_debug:
  assumes "fold_err (level_step up regex keyword) lh (st, ma, db) = Inr (st', ma', db')"
    and "distinct (map fst lh)" and "(l, hs) \<in> set lh"
  shows "\<exists>tot m d. process_level up regex keyword hs = Inr (tot, m, d) \<and> map_of db' l = Some d"
proof -
  have look: "map_of lh l = Some hs" using assms(2,3) by simp
  have "\<not> isl (process_level up regex keyword hs)"
    using level_fold_ok [OF assms(1,2)] assms(3) by force
  then obtain tot m d where "process_level up regex keyword hs = Inr (tot, m, d)"
    by (metis isl_def sum.exhaust prod_cases3)
  then show ?thesis
    using level_fold_debug_lookup [OF assms(1,2), of l] look by simp
qed

text \<open>
  Claim C10.  The exclusion log of a level is a dictionary keyed by the URL string.
  In a result of the search, the log of each level holds no URL twice, and under
  each URL it holds the reason of the last assignment that the two loops made for
  that URL on that level, in the order of the links and then of the candidates: a
  later reason overwrites an earlier one.
\<close>

theorem skipped_log_keeps_last_reason:
  assumes "search_keyword_in_hrefs up level_hrefs keyword = Inr (Some r)"
    and "distinct (map fst level_hrefs)"
    and "(level, hrefs) \<in> set level_hrefs"
  shows "\<exists>dbg. map_of (debug_infos r) level = Some dbg \<and>
           distinct (map fst (skipped dbg)) \<and>
           map_of (skipped dbg) =
             map_of (rev (skip_writes up (AtBoundary # map Literal keyword @ [AtBoundary]) keyword hrefs))"
proof -
  from assms(1) obtain st ma db where
    f: "fold_err (level_step up (AtBoundary # map Literal keyword @ [AtBoundary]) keyword) level_hrefs
          ([], [], []) = Inr (st, ma, db)"
    and r: "debug_infos r = db"
    by (elim search_result_cases) blast
  from level_fold_debug [OF f assms(2,3)] obtain tot m d where
    pl: "process_level up (AtBoundary # map Literal keyword @ [AtBoundary]) keyword hrefs = Inr (tot, m, d)"
    and d: "map_of db level = Some d"
    by blast
  have log: "skipped d = write_all (skip_writes up (AtBoundary # map Literal keyword @ [AtBoundary]) keyword hrefs) []"
    using process_level_log [OF pl] .
  have "distinct (map fst (skipped d))"
    unfolding log by (rule write_all_distinct) simp
  moreover have "map_of (skipped d) =
      map_of (rev (skip_writes up (AtBoundary # map Literal keyword @ [AtBoundary]) keyword hrefs))"
    unfolding log by (simp add: write_all_lookup)
  ultimately show ?thesis using d r by simp
qed

lemma repeat_levels_writes:
  "skip_writes urlparse_any (AtBoundary # map Literal ''fire'' @ [AtBoundary]) ''fire'' (snd (repeat_levels ! 0)) =
     [(''https://x.com/news#top'', ''Has anchor (#top)''),
      (''https://facebook.com/sharer/x'', social_reason),
      (''https://x.com/news#top'', ''Has anchor (#top)''),
      (''https://facebook.com/sharer/x'', not_in_path_reason ''fire'')]"
  by code_simp

lemma repeat_levels_eval:
  "map_sum id (map_option (\<lambda>r. map (\<lambda>e. (fst e, skipped (snd e))) (debug_infos r)))
     (search_keyword_in_hrefs urlparse_any repeat_levels ''fire'') =
   Inr (Some [(0, [(''https://x.com/news#top'', ''Has anchor (#top)''),
                   (''https://facebook.com/sharer/x'', not_in_path_reason ''fire'')])])"
  by code_simp

theorem skipped_log_keeps_last_reason_witness:
  "distinct (map fst repeat_levels) \<and>
   (0, snd (repeat_levels ! 0)) \<in> set repeat_levels \<and>
   skip_writes urlparse_any (AtBoundary # map Literal ''fire'' @ [AtBoundary]) ''fire'' (snd (repeat_levels ! 0)) =
     [(''https://x.com/news#top'', ''Has anchor (#top)''),
      (''https://facebook.com/sharer/x'', social_reason),
      (''https://x.com/news#top'', ''Has anchor (#top)''),
      (''https://facebook.com/sharer/x'', not_in_path_reason ''fire'')] \<and>
   (\<exists>r dbg. search_keyword_in_hrefs urlparse_any repeat_levels ''fire'' = Inr (Some r) \<and>
      map_of (debug_infos r) 0 = Some dbg \<and>
      skipped dbg = [(''https://x.com/news#top'', ''Has anchor (#top)''),
                     (''https://facebook.com/sharer/x'', not_in_path_reason ''fire'')] \<and>
      distinct (map fst (skipped dbg)) \<and>
      map_of (skipped dbg) =
        map_of (rev (skip_writes urlparse_any (AtBoundary # map Literal ''fire'' @ [AtBoundary]) ''fire''
                       (snd (repeat_levels ! 0)))))"
proof -
  have d: "distinct (map fst repeat_levels)" by (simp add: repeat_levels_def)
  have m: "(0, snd (repeat_levels ! 0)) \<in> set repeat_levels" by (simp add: repeat_levels_def)
  from projection_result [OF repeat_levels_eval] obtain r where
    r: "search_keyword_in_hrefs urlparse_any repeat_levels ''fire'' = Inr (Some r)"
    and v: "map (\<lambda>e. (fst e, skipped (snd e))) (debug_infos r) =
         [(0, [(''https://x.com/news#top'', ''Has anchor (#top)''),
               (''https://facebook.com/sharer/x'', not_in_path_reason ''fire'')])]"
    by (elim exE conjE)
  from skipped_log_keeps_last_reason [OF r d m] obtain dbg where
    dbg: "map_of (debug_infos r) 0 = Some dbg" "distinct (map fst (skipped dbg))"
      "map_of (skipped dbg) =
        map_of (rev (skip_writes urlparse_any (AtBoundary # map Literal ''fire'' @ [AtBoundary]) ''fire''
                       (snd (repeat_levels ! 0))))"
    by (elim exE conjE)
  from v dbg(1) have sk: "skipped dbg = [(''https://x.com/news#top'', ''Has anchor (#top)''),
                     (''https://facebook.com/sharer/x'', not_in_path_reason ''fire'')]"
    by (cases "debug_infos r") (auto split: if_splits)
  have "\<exists>r dbg. search_keyword_in_hrefs urlparse_any repeat_levels ''fire'' = Inr (Some r) \<and>
      map_of (debug_infos r) 0 = Some dbg \<and>
      skipped dbg = [(''https://x.com/news#top'', ''Has anchor (#top)''),
                     (''https://facebook.com/sharer/x'', not_in_path_reason ''fire'')] \<and>
      distinct (map fst (skipped dbg)) \<and>
      map_of (skipped dbg) =
        map_of (rev (skip_writes urlparse_any (AtBoundary # map Literal ''fire'' @ [AtBoundary]) ''fire''
                       (snd (repeat_levels ! 0))))"
    using r dbg sk by blast
  then show ?thesis
    by (intro conjI d m repeat_levels_writes)
qed

section \<open>No question mark in a normalized URL\<close>

lemma lower_char_query: "lower_char c = CHR ''?'' \<Longrightarrow> c = CHR ''?''"
proof (cases "is_upper c \<or>
    (0xC0 \<le> (of_char c :: nat) \<and> (of_char c :: nat) \<le> 0xDE \<and> (of_char c :: nat) \<noteq> 0xD7)")
  case False
  assume "lower_char c = CHR ''?''"
  then show ?thesis using False by (simp add: lower_char_def)
next
  case True
  assume a: "lower_char c = CHR ''?''"
  then have "char_of ((of_char c :: nat) + 32) = CHR ''?''" using True by (simp add: lower_char_def)
  then have "(of_char (char_of ((of_char c :: nat) + 32) :: char) :: nat) = of_char (CHR ''?'')" by simp
  then have m: "((of_char c :: nat) + 32) mod 256 = 63" by simp
  have "97 \<le> (of_char c :: nat) + 32 \<and> (of_char c :: nat) + 32 < 256"
    using True by (auto simp: is_upper_def)
  then have "97 \<le> ((of_char c :: nat) + 32) mod 256" by simp
  then show ?thesis using m by simp
qed

lemma scheme_char_not_query: "scheme_char c \<Longrightarrow> c \<noteq> CHR ''?''"
  by (auto simp: scheme_char_def is_alnum_def is_alpha_def is_upper_def is_lower_def is_digit_def)

lemma split_scheme_no_query: "split_scheme url = (s, rest) \<Longrightarrow> CHR ''?'' \<notin> set s"
proof -
  assume a: "split_scheme url = (s, rest)"
  define i where "i = length (takeWhile (\<lambda>x. x \<noteq> CHR '':'') url)"
  define ok where "ok = (CHR '':'' \<in> set url \<and> 0 < i \<and> is_alpha (hd url) \<and> list_all scheme_char (take i url))"
  have eq: "split_scheme url = (if ok then (lower (take i url), drop (Suc i) url) else ('''', url))"
    unfolding split_scheme_def Let_def ok_def i_def by (rule refl)
  show ?thesis
  proof (cases ok)
    case False
    then have "s = []" using a unfolding eq by simp
    then show ?thesis by simp
  next
    case True
    then have s: "s = lower (take i url)" using a unfolding eq by simp
    have "list_all scheme_char (take i url)" using True unfolding ok_def by (elim conjE)
    then have "\<forall>c \<in> set (take i url). c \<noteq> CHR ''?''"
      using scheme_char_not_query by (auto simp: list_all_iff)
    then have "\<forall>c \<in> set (take i url). lower_char c \<noteq> CHR ''?''"
      using lower_char_query by blast
    then show ?thesis unfolding s lower_def by auto
  qed
qed

lemma splitnetloc_no_query: "splitnetloc url = (n, rest) \<Longrightarrow> CHR ''?'' \<notin> set n"
proof -
  assume "splitnetloc url = (n, rest)"
  then have n: "n = takeWhile (\<lambda>x. x \<notin> set ''/?#'') (drop 2 url)" by (simp add: splitnetloc_def)
  have "\<forall>x \<in> set n. x \<notin> set ''/?#''"
    unfolding n using set_takeWhileD by fastforce
  moreover have "CHR ''?'' \<in> set ''/?#''" by simp
  ultimately show ?thesis by blast
qed

lemma split_first_fst_without: "c \<notin> set (fst (split_first c s))"
proof -
  have "\<forall>x \<in> set (takeWhile (\<lambda>x. x \<noteq> c) s). x \<noteq> c"
    using set_takeWhileD by fastforce
  then show ?thesis by (auto simp: split_first_def)
qed

lemma split_first_fst_subset: "set (fst (split_first c s)) \<subseteq> set s"
  using set_takeWhileD by (fastforce simp: split_first_def)

lemma splitparams_fst_subset: "set (fst (splitparams s)) \<subseteq> set s"
proof (cases "CHR ''/'' \<in> set s")
  case False
  then have "splitparams s = split_first (CHR '';'') s" by (simp add: splitparams_def)
  then show ?thesis using split_first_fst_subset by simp
next
  case True
  define lst where "lst = rev (takeWhile (\<lambda>x. x \<noteq> CHR ''/'') (rev s))"
  define hd_part where "hd_part = take (length s - length lst) s"
  have eq: "splitparams s =
      (if CHR '';'' \<in> set lst
       then (hd_part @ fst (split_first (CHR '';'') lst), snd (split_first (CHR '';'') lst))
       else (s, ''''))"
    using True unfolding splitparams_def Let_def lst_def hd_part_def by simp
  have l: "set lst \<subseteq> set s"
    unfolding lst_def using set_takeWhileD by fastforce
  have h: "set hd_part \<subseteq> set s" unfolding hd_part_def by (rule set_take_subset)
  have f: "set (fst (split_first (CHR '';'') lst)) \<subseteq> set s"
    using split_first_fst_subset [of "CHR '';''" lst] l by blast
  show ?thesis
  proof (cases "CHR '';'' \<in> set lst")
    case True
    then show ?thesis using h f unfolding eq by simp
  next
    case False
    then show ?thesis unfolding eq by simp
  qed
qed

lemma urlparse_no_query:
  assumes "urlparse chk u = Inr p"
  shows "CHR ''?'' \<notin> set (normalize_url p)"
proof -
  define url2 where
    "url2 = filter (\<lambda>c. c \<notin> set [CHR 0x09, CHR 0x0D, CHR 0x0A]) (dropWhile (\<lambda>c. (of_char c :: nat) \<le> 32) u)"
  obtain scheme url3 where sc: "split_scheme url2 = (scheme, url3)" by (cases "split_scheme url2")
  obtain netloc url4 where nl: "(if take 2 url3 = ''//'' then splitnetloc url3 else ('''', url3)) = (netloc, url4)"
    by (cases "if take 2 url3 = ''//'' then splitnetloc url3 else ('''', url3)")
  obtain url5 fragment where fr:
    "(if CHR ''#'' \<in> set url4 then split_first (CHR ''#'') url4 else (url4, '''')) = (url5, fragment)"
    by (cases "if CHR ''#'' \<in> set url4 then split_first (CHR ''#'') url4 else (url4, '''')")
  obtain url6 query where qu:
    "(if CHR ''?'' \<in> set url5 then split_first (CHR ''?'') url5 else (url5, '''')) = (url6, query)"
    by (cases "if CHR ''?'' \<in> set url5 then split_first (CHR ''?'') url5 else (url5, '''')")
  obtain url7 params where pa:
    "(if scheme \<in> set uses_params \<and> CHR '';'' \<in> set url6 then splitparams url6 else (url6, '''')) = (url7, params)"
    by (cases "if scheme \<in> set uses_params \<and> CHR '';'' \<in> set url6 then splitparams url6 else (url6, '''')")
  define bad where "bad = ((CHR ''['' \<in> set netloc \<and> CHR '']'' \<notin> set netloc) \<or>
            (CHR '']'' \<in> set netloc \<and> CHR ''['' \<notin> set netloc))"
  define bad2 where "bad2 = (CHR ''['' \<in> set netloc \<and> CHR '']'' \<in> set netloc \<and> \<not> chk netloc)"
  have eq: "urlparse chk u =
      (if bad then Inl ValueError else if bad2 then Inl ValueError
       else Inr \<lparr>pr_scheme = scheme, pr_netloc = netloc, pr_path = url7,
                     pr_params = params, pr_query = query, pr_fragment = fragment\<rparr>)"
    unfolding urlparse_def Let_def url2_def [symmetric]
    by (simp only: sc nl fr qu pa prod.case bad_def bad2_def)
  from assms have p: "p = \<lparr>pr_scheme = scheme, pr_netloc = netloc, pr_path = url7,
                     pr_params = params, pr_query = query, pr_fragment = fragment\<rparr>"
    unfolding eq by (cases bad; cases bad2) simp_all
  have s: "CHR ''?'' \<notin> set scheme" using split_scheme_no_query [OF sc] .
  have n: "CHR ''?'' \<notin> set netloc"
  proof (cases "take 2 url3 = ''//''")
    case True
    then have "splitnetloc url3 = (netloc, url4)" using nl by simp
    then show ?thesis by (rule splitnetloc_no_query)
  next
    case False
    then have "netloc = []" using nl by simp
    then show ?thesis by simp
  qed
  have u6: "CHR ''?'' \<notin> set url6"
  proof (cases "CHR ''?'' \<in> set url5")
    case True
    then have "url6 = fst (split_first (CHR ''?'') url5)" using qu by (metis fst_conv)
    then show ?thesis using split_first_fst_without by simp
  next
    case False
    then have "url6 = url5" using qu by simp
    then show ?thesis using False by simp
  qed
  have "set url7 \<subseteq> set url6"
  proof (cases "scheme \<in> set uses_params \<and> CHR '';'' \<in> set url6")
    case True
    then have "url7 = fst (splitparams url6)" using pa by (metis fst_conv)
    then show ?thesis using splitparams_fst_subset by simp
  next
    case False
    then have "url7 = url6" using pa by (metis fst_conv)
    then show ?thesis by simp
  qed
  then have u7: "CHR ''?'' \<notin> set url7" using u6 by blast
  show ?thesis using s n u7 by (simp add: p normalize_url_def)
qed

section \<open>Sharing links\<close>

lemma in_map_filter: "(y \<in> set (List.map_filter f xs)) = (\<exists>x \<in> set xs. f x = Some y)"
  by (induction xs) (auto simp: List.map_filter_simps split: option.splits)

lemma candidate_of_share: "is_share_link (href_url h) \<Longrightarrow> candidate_of up h = None"
  by (simp add: candidate_of_def)

lemma survivors_without_share:
  "survivors up (filter (\<lambda>x. \<not> is_share_link (href_url x)) hrefs) = survivors up hrefs"
proof (induction hrefs)
  case Nil
  show ?case by simp
next
  case (Cons h hs)
  show ?case
  proof (cases "is_share_link (href_url h)")
    case True
    then show ?thesis
      using Cons.IH by (simp add: survivors_def List.map_filter_simps candidate_of_share)
  next
    case False
    then show ?thesis
      using Cons.IH by (simp add: survivors_def List.map_filter_simps split: option.splits)
  qed
qed

lemma collect_parser_independent:
  assumes "\<forall>u. \<not> is_share_link u \<longrightarrow> up' u = up u"
  shows "fold_err (collect_href up') hrefs st = fold_err (collect_href up) hrefs st"
proof (induction hrefs arbitrary: st)
  case Nil
  show ?case by simp
next
  case (Cons h hs)
  have "collect_href up' h st = collect_href up h st"
    using assms by (simp add: collect_href_def Let_def)
  then show ?case using Cons.IH by (simp split: sum.splits)
qed

lemma map_of_same_value:
  assumes "k \<in> fst ` set ws" and "\<forall>w \<in> set ws. fst w = k \<longrightarrow> snd w = v"
  shows "map_of ws k = Some v"
proof -
  from assms(1) obtain y where y: "map_of ws k = Some y"
    by (metis domD dom_map_of_conv_image_fst)
  then have "(k, y) \<in> set ws" by (rule map_of_SomeD)
  then have "y = v" using assms(2) by force
  then show ?thesis using y by simp
qed

lemma share_link_first_write:
  assumes "h \<in> set hrefs" and "is_share_link (href_url h)"
  shows "map_of (write_all (List.map_filter (collect_write up) hrefs) sk) (href_url h) = Some social_reason"
proof -
  let ?ws = "List.map_filter (collect_write up) hrefs"
  have "collect_write up h = Some (href_url h, social_reason)"
    using assms(2) by (simp add: collect_write_def)
  then have "(href_url h, social_reason) \<in> set ?ws"
    using assms(1) by (auto simp: in_map_filter)
  then have k: "href_url h \<in> fst ` set (rev ?ws)" by force
  have "\<forall>w \<in> set (rev ?ws). fst w = href_url h \<longrightarrow> snd w = social_reason"
  proof (intro ballI impI)
    fix w assume "w \<in> set (rev ?ws)" and eq: "fst w = href_url h"
    then obtain x where x: "x \<in> set hrefs" "collect_write up x = Some w"
      by (auto simp: in_map_filter)
    then have "fst w = href_url x"
      by (auto simp: collect_write_def split: if_splits sum.splits)
    then have "is_share_link (href_url x)" using eq assms(2) by simp
    then show "snd w = social_reason" using x(2) by (auto simp: collect_write_def)
  qed
  from map_of_same_value [OF k this] have "map_of (rev ?ws) (href_url h) = Some social_reason" .
  then show ?thesis by (simp add: write_all_lookup map_of_append)
qed

lemma match_write_cases:
  assumes "w \<in> set (List.map_filter (match_write up regex keyword) pool)"
  shows "fst w \<in> fst ` set pool \<and> (snd w = not_in_path_reason keyword \<or> snd w = entire_path_reason keyword)"
proof -
  from assms obtain item where "item \<in> set pool" "match_write up regex keyword item = Some w"
    by (auto simp: in_map_filter)
  then show ?thesis
    by (auto simp: match_write_def split: sum.splits if_splits)
qed

lemma survivor_key_normalized:
  assumes "e \<in> set (survivors up hrefs)"
  shows "\<exists>u p. up u = Inr p \<and> fst e = normalize_url p"
proof -
  from assms obtain h where "candidate_of up h = Some e"
    by (auto simp: survivors_def in_map_filter)
  then show ?thesis
    by (force simp: candidate_of_def split: if_splits sum.splits)
qed

lemma candidate_pool_key_normalized:
  assumes "k \<in> fst ` set (candidate_pool up hrefs)"
  shows "\<exists>u p. up u = Inr p \<and> k = normalize_url p"
proof -
  from assms have "k \<in> fst ` set (survivors up hrefs)"
    using fold_keep_longest_keys [of "survivors up hrefs" "[]"] by (simp add: candidate_pool_def)
  then show ?thesis using survivor_key_normalized by fastforce
qed

lemma anchor_query_reason_head:
  "anchor_query_reason p = [] \<or> hd (anchor_query_reason p) = CHR ''H''"
  by (simp add: anchor_query_reason_def)

lemma reasons_differ:
  "social_reason \<noteq> anchor_query_reason p"
  "not_in_path_reason keyword \<noteq> anchor_query_reason p"
  "entire_path_reason keyword \<noteq> anchor_query_reason p"
proof -
  have a: "social_reason \<noteq> []" "hd social_reason = CHR ''S''" by (simp_all add: social_reason_def)
  have b: "not_in_path_reason keyword \<noteq> []" "hd (not_in_path_reason keyword) = CHR ''K''"
    by (simp_all add: not_in_path_reason_def)
  have c: "entire_path_reason keyword \<noteq> []" "hd (entire_path_reason keyword) = CHR ''K''"
    by (simp_all add: entire_path_reason_def)
  show "social_reason \<noteq> anchor_query_reason p"
  proof
    assume eq: "social_reason = anchor_query_reason p"
    then have "anchor_query_reason p \<noteq> []" "hd (anchor_query_reason p) = CHR ''S''"
      using a by simp_all
    then show False using anchor_query_reason_head [of p] by simp
  qed
  show "not_in_path_reason keyword \<noteq> anchor_query_reason p"
  proof
    assume eq: "not_in_path_reason keyword = anchor_query_reason p"
    then have "anchor_query_reason p \<noteq> []" "hd (anchor_query_reason p) = CHR ''K''"
      using b by simp_all
    then show False using anchor_query_reason_head [of p] by simp
  qed
  show "entire_path_reason keyword \<noteq> anchor_query_reason p"
  proof
    assume eq: "entire_path_reason keyword = anchor_query_reason p"
    then have "anchor_query_reason p \<noteq> []" "hd (anchor_query_reason p) = CHR ''K''"
      using c by simp_all
    then show False using anchor_query_reason_head [of p] by simp
  qed
qed

text \<open>
  Claim C3, as the code has it.  The reason that the code records for a sharing link
  is the string \<^verbatim>\<open>Social media sharing link\<close>: on a level with the link
  \<^verbatim>\<open>https://facebook.com/sharer/sharer.php?u=x\<close> the log holds that string for it, not
  \<^verbatim>\<open>social sharing link\<close>.
\<close>

theorem share_reason_counterexample:
  "logged_reason (search_keyword_in_hrefs urlparse_any partly_empty_levels ''fire'') 0
     ''https://facebook.com/sharer/sharer.php?u=x'' = Some ''Social media sharing link'' \<and>
   logged_reason (search_keyword_in_hrefs urlparse_any partly_empty_levels ''fire'') 0
     ''https://facebook.com/sharer/sharer.php?u=x'' \<noteq> Some ''social sharing link''"
  by code_simp

text \<open>
  Claim C3, amended.  Let the search return a result, and let a level hold a link
  whose URL contains one of the sharing patterns, compared in lower case.  The first
  loop drops the link before any parsing: after the loop the log holds
  \<^verbatim>\<open>Social media sharing link\<close> for its URL, \<^verbatim>\<open>unique_urls\<close> is what the level without
  its sharing links gives, and the loop does the same whatever the parser would say
  about sharing URLs.  In the result, the reason logged for the URL is never a
  fragment or query reason; and when the URL holds a question mark, and the parser
  never leaves one in a normalized URL, the reason is the sharing reason.
\<close>

theorem share_link_dropped_first:
  assumes res: "search_keyword_in_hrefs up level_hrefs keyword = Inr (Some r)"
    and dist: "distinct (map fst level_hrefs)"
    and lev: "(level, hrefs) \<in> set level_hrefs"
    and h: "h \<in> set hrefs"
    and share: "is_share_link (href_url h)"
  shows "(\<exists>unique_urls skip.
            fold_err (collect_href up) hrefs ([], []) = Inr (unique_urls, skip) \<and>
            map_of skip (href_url h) = Some social_reason \<and>
            unique_urls = candidate_pool up (filter (\<lambda>x. \<not> is_share_link (href_url x)) hrefs)) \<and>
         (\<forall>up'. (\<forall>u. \<not> is_share_link u \<longrightarrow> up' u = up u) \<longrightarrow>
            fold_err (collect_href up') hrefs ([], []) = fold_err (collect_href up) hrefs ([], [])) \<and>
         (\<exists>dbg reason.
            map_of (debug_infos r) level = Some dbg \<and>
            map_of (skipped dbg) (href_url h) = Some reason \<and>
            (\<forall>p. reason \<noteq> anchor_query_reason p) \<and>
            (CHR ''?'' \<in> set (href_url h) \<and> (\<forall>u p. up u = Inr p \<longrightarrow> CHR ''?'' \<notin> set (normalize_url p)) \<longrightarrow>
               reason = social_reason))"
proof -
  let ?R = "AtBoundary # map Literal keyword @ [AtBoundary]"
  from res obtain st ma db where
    f: "fold_err (level_step up ?R keyword) level_hrefs ([], [], []) = Inr (st, ma, db)"
    and r: "debug_infos r = db"
    by (elim search_result_cases) blast
  from level_fold_debug [OF f dist lev] obtain tot m d where
    pl: "process_level up ?R keyword hrefs = Inr (tot, m, d)"
    and d: "map_of db level = Some d"
    by blast
  from process_level_ok [OF pl] obtain unique_urls skip where
    c: "fold_err (collect_href up) hrefs ([], []) = Inr (unique_urls, skip)"
    and u: "unique_urls = fold keep_longest (survivors up hrefs) []"
    and s1: "skip = write_all (List.map_filter (collect_write up) hrefs) []"
    by blast
  have first: "map_of skip (href_url h) = Some social_reason"
    unfolding s1 using share_link_first_write [OF h share] .
  have pool: "unique_urls = candidate_pool up (filter (\<lambda>x. \<not> is_share_link (href_url x)) hrefs)"
    unfolding u candidate_pool_def by (simp add: survivors_without_share)
  have part1: "\<exists>unique_urls skip.
            fold_err (collect_href up) hrefs ([], []) = Inr (unique_urls, skip) \<and>
            map_of skip (href_url h) = Some social_reason \<and>
            unique_urls = candidate_pool up (filter (\<lambda>x. \<not> is_share_link (href_url x)) hrefs)"
    using c first pool by blast
  have part2: "\<forall>up'. (\<forall>u. \<not> is_share_link u \<longrightarrow> up' u = up u) \<longrightarrow>
            fold_err (collect_href up') hrefs ([], []) = fold_err (collect_href up) hrefs ([], [])"
    using collect_parser_independent by blast
  let ?ws1 = "List.map_filter (collect_write up) hrefs"
  let ?ws2 = "List.map_filter (match_write up ?R keyword) (candidate_pool up hrefs)"
  have log: "map_of (skipped d) = map_of (rev ?ws2 @ rev ?ws1)"
    using process_level_log [OF pl] by (simp add: write_all_lookup skip_writes_def)
  have w1: "map_of (rev ?ws1) (href_url h) = Some social_reason"
    using first unfolding s1 by (simp add: write_all_lookup)
  have look: "map_of (skipped d) (href_url h) =
      (case map_of (rev ?ws2) (href_url h) of None \<Rightarrow> Some social_reason | Some x \<Rightarrow> Some x)"
    unfolding log using w1 by (simp add: map_of_append map_add_def split: option.splits)
  define reason where
    "reason = (case map_of (rev ?ws2) (href_url h) of None \<Rightarrow> social_reason | Some x \<Rightarrow> x)"
  have reason: "map_of (skipped d) (href_url h) = Some reason"
    unfolding look reason_def by (simp split: option.splits)
  have cases: "reason = social_reason \<and> map_of (rev ?ws2) (href_url h) = None \<or>
                map_of (rev ?ws2) (href_url h) = Some reason"
    unfolding reason_def by (simp split: option.splits)
  have kinds: "reason = social_reason \<or> reason = not_in_path_reason keyword \<or>
               reason = entire_path_reason keyword"
  proof (cases "map_of (rev ?ws2) (href_url h)")
    case None
    then show ?thesis using cases by simp
  next
    case (Some x)
    then have "(href_url h, x) \<in> set ?ws2" using map_of_SomeD by fastforce
    then have "x = not_in_path_reason keyword \<or> x = entire_path_reason keyword"
      using match_write_cases by fastforce
    then show ?thesis using cases Some by auto
  qed
  have differ: "\<forall>p. reason \<noteq> anchor_query_reason p"
    using kinds reasons_differ by metis
  have query: "CHR ''?'' \<in> set (href_url h) \<and> (\<forall>u p. up u = Inr p \<longrightarrow> CHR ''?'' \<notin> set (normalize_url p)) \<longrightarrow>
               reason = social_reason"
  proof
    assume a: "CHR ''?'' \<in> set (href_url h) \<and> (\<forall>u p. up u = Inr p \<longrightarrow> CHR ''?'' \<notin> set (normalize_url p))"
    have "map_of (rev ?ws2) (href_url h) = None"
    proof (rule ccontr)
      assume "map_of (rev ?ws2) (href_url h) \<noteq> None"
      then obtain x where "map_of (rev ?ws2) (href_url h) = Some x" by blast
      then have "(href_url h, x) \<in> set ?ws2" using map_of_SomeD by fastforce
      then have "href_url h \<in> fst ` set (candidate_pool up hrefs)"
        using match_write_cases by fastforce
      then obtain u p where "up u = Inr p" "href_url h = normalize_url p"
        using candidate_pool_key_normalized by blast
      then show False using a by metis
    qed
    then show "reason = social_reason" using cases by simp
  qed
  have part3: "\<exists>dbg reason.
            map_of (debug_infos r) level = Some dbg \<and>
            map_of (skipped dbg) (href_url h) = Some reason \<and>
            (\<forall>p. reason \<noteq> anchor_query_reason p) \<and>
            (CHR ''?'' \<in> set (href_url h) \<and> (\<forall>u p. up u = Inr p \<longrightarrow> CHR ''?'' \<notin> set (normalize_url p)) \<longrightarrow>
               reason = social_reason)"
    using d r reason differ query by blast
  show ?thesis using part1 part2 part3 by (intro conjI)
qed

lemma share_anchor_facts:
  "anchor ''https://facebook.com/sharer/sharer.php?u=x'' ''Share'' \<in> set (snd (partly_empty_levels ! 0))"
  "is_share_link (href_url (anchor ''https://facebook.com/sharer/sharer.php?u=x'' ''Share''))"
  "CHR ''?'' \<in> set (href_url (anchor ''https://facebook.com/sharer/sharer.php?u=x'' ''Share''))"
  by code_simp+

theorem share_link_dropped_first_witness:
  "distinct (map fst partly_empty_levels) \<and>
   (0, snd (partly_empty_levels ! 0)) \<in> set partly_empty_levels \<and>
   anchor ''https://facebook.com/sharer/sharer.php?u=x'' ''Share'' \<in> set (snd (partly_empty_levels ! 0)) \<and>
   is_share_link (href_url (anchor ''https://facebook.com/sharer/sharer.php?u=x'' ''Share'')) \<and>
   (\<exists>r. search_keyword_in_hrefs urlparse_any partly_empty_levels ''fire'' = Inr (Some r) \<and>
      (\<exists>unique_urls skip.
         fold_err (collect_href urlparse_any) (snd (partly_empty_levels ! 0)) ([], []) = Inr (unique_urls, skip) \<and>
         map_of skip (href_url (anchor ''https://facebook.com/sharer/sharer.php?u=x'' ''Share'')) =
           Some social_reason \<and>
         unique_urls = candidate_pool urlparse_any
           (filter (\<lambda>x. \<not> is_share_link (href_url x)) (snd (partly_empty_levels ! 0)))) \<and>
      (\<exists>dbg reason.
         map_of (debug_infos r) 0 = Some dbg \<and>
         map_of (skipped dbg) (href_url (anchor ''https://facebook.com/sharer/sharer.php?u=x'' ''Share'')) =
           Some reason \<and>
         CHR ''?'' \<in> set (href_url (anchor ''https://facebook.com/sharer/sharer.php?u=x'' ''Share'')) \<and>
         (\<forall>u p. urlparse_any u = Inr p \<longrightarrow> CHR ''?'' \<notin> set (normalize_url p)) \<and>
         reason = social_reason))"
proof -
  let ?h = "anchor ''https://facebook.com/sharer/sharer.php?u=x'' ''Share''"
  have d: "distinct (map fst partly_empty_levels)" by (simp add: partly_empty_levels_def)
  have m: "(0, snd (partly_empty_levels ! 0)) \<in> set partly_empty_levels"
    by (simp add: partly_empty_levels_def)
  from projection_result [OF partly_empty_eval] obtain r where
    r: "search_keyword_in_hrefs urlparse_any partly_empty_levels ''fire'' = Inr (Some r)"
    unfolding urlparse_any_def by (elim exE conjE)
  have clean: "\<forall>u p. urlparse_any u = Inr p \<longrightarrow> CHR ''?'' \<notin> set (normalize_url p)"
    unfolding urlparse_any_def using urlparse_no_query by blast
  note t = share_link_dropped_first [OF r d m share_anchor_facts(1) share_anchor_facts(2)]
  from t [THEN conjunct2, THEN conjunct2] obtain dbg reason where
    dbg: "map_of (debug_infos r) 0 = Some dbg"
      "map_of (skipped dbg) (href_url ?h) = Some reason"
    and imp: "CHR ''?'' \<in> set (href_url ?h) \<and>
        (\<forall>u p. urlparse_any u = Inr p \<longrightarrow> CHR ''?'' \<notin> set (normalize_url p)) \<longrightarrow> reason = social_reason"
    by (elim exE conjE)
  have reason: "reason = social_reason"
    using imp share_anchor_facts(3) clean by blast
  have p3: "\<exists>dbg reason.
         map_of (debug_infos r) 0 = Some dbg \<and>
         map_of (skipped dbg) (href_url ?h) = Some reason \<and>
         CHR ''?'' \<in> set (href_url ?h) \<and>
         (\<forall>u p. urlparse_any u = Inr p \<longrightarrow> CHR ''?'' \<notin> set (normalize_url p)) \<and>
         reason = social_reason"
    using dbg share_anchor_facts(3) clean reason by blast
  show ?thesis
    by (intro conjI d m share_anchor_facts(1) share_anchor_facts(2) exI [of _ r] r t [THEN conjunct1] p3)
qed

section \<open>A URL that does not parse\<close>

lemma collect_fold_error:
  "fold_err (collect_href up) hrefs st = Inl err \<Longrightarrow> \<exists>u. up u = Inl err"
proof (induction hrefs arbitrary: st)
  case Nil
  then show ?case by simp
next
  case (Cons h hs)
  obtain u sk where st: "st = (u, sk)" by (cases st)
  show ?case
  proof (cases "parse_fails up h")
    case True
    then have "up (href_url h) = Inl err"
      using Cons.prems by (auto simp: st collect_href_eq parse_fails_def isl_def)
    then show ?thesis by blast
  next
    case False
    then show ?thesis using Cons.prems Cons.IH by (simp add: st collect_href_eq)
  qed
qed

lemma match_fold_error:
  "fold_err (match_candidate up regex keyword) items st = Inl err \<Longrightarrow> \<exists>u. up u = Inl err"
proof (induction items arbitrary: st)
  case Nil
  then show ?case by simp
next
  case (Cons item items)
  obtain m sk inc where st: "st = (m, sk, inc)" by (metis prod_cases3)
  show ?case
  proof (cases "up (fst item)")
    case (Inl e)
    then have "e = err" using Cons.prems by (simp add: st match_candidate_eq)
    then show ?thesis using Inl by blast
  next
    case (Inr p)
    then show ?thesis using Cons.prems Cons.IH by (simp add: st match_candidate_eq)
  qed
qed

lemma process_level_error:
  "process_level up regex keyword hrefs = Inl err \<Longrightarrow> \<exists>u. up u = Inl err"
  using collect_fold_error match_fold_error
  by (fastforce simp: process_level_def split: sum.splits)

lemma process_level_raises:
  "isl (process_level up regex keyword hrefs) =
     ((\<exists>h \<in> set hrefs. parse_fails up h) \<or>
      (\<exists>item \<in> set (candidate_pool up hrefs). isl (up (fst item))))"
proof (cases "\<exists>h \<in> set hrefs. parse_fails up h")
  case True
  then obtain e where "fold_err (collect_href up) hrefs ([], []) = Inl e"
    using collect_fold_fails by blast
  then have "isl (process_level up regex keyword hrefs)" by (simp add: process_level_def)
  then show ?thesis using True by simp
next
  case False
  then obtain u sk where c: "fold_err (collect_href up) hrefs ([], []) = Inr (u, sk)"
    using collect_fold_total [of hrefs up "[]" "[]"] by auto
  have u: "u = candidate_pool up hrefs"
    using collect_fold_ok [OF c] by (simp add: candidate_pool_def)
  show ?thesis
  proof (cases "\<exists>item \<in> set u. isl (up (fst item))")
    case True
    have "isl (fold_err (match_candidate up regex keyword) u ([], sk, []))"
    proof (rule ccontr)
      assume "\<not> isl (fold_err (match_candidate up regex keyword) u ([], sk, []))"
      then obtain m' sk' inc' where
        "fold_err (match_candidate up regex keyword) u ([], sk, []) = Inr (m', sk', inc')"
        by (metis isl_def sum.exhaust prod_cases3)
      from match_fold_ok [OF this] True show False by blast
    qed
    then have "isl (process_level up regex keyword hrefs)"
      by (auto simp: process_level_def c isl_def)
    then show ?thesis using True u by blast
  next
    case nf: False
    then have "\<forall>item \<in> set u. \<not> isl (up (fst item))" by blast
    from process_level_from_pool [OF c this] have "\<not> isl (process_level up regex keyword hrefs)"
      by simp
    then show ?thesis using False nf u by blast
  qed
qed

lemma level_fold_raises:
  "isl (fold_err (level_step up regex keyword) lh st) =
     (\<exists>e \<in> set lh. isl (process_level up regex keyword (snd e)))"
proof (induction lh arbitrary: st)
  case Nil
  show ?case by simp
next
  case (Cons e lh)
  obtain l hs where e: "e = (l, hs)" by (cases e)
  obtain s m d where st: "st = (s, m, d)" by (metis prod_cases3)
  show ?case
  proof (cases "process_level up regex keyword hs")
    case (Inl err)
    then show ?thesis by (simp add: e st level_step_eq)
  next
    case (Inr r)
    obtain tot ms dbg where r: "r = (tot, ms, dbg)" by (metis prod_cases3)
    show ?thesis using Inr Cons.IH by (simp add: e st r level_step_eq)
  qed
qed

lemma level_fold_error:
  "fold_err (level_step up regex keyword) lh st = Inl err \<Longrightarrow> \<exists>u. up u = Inl err"
proof (induction lh arbitrary: st)
  case Nil
  then show ?case by simp
next
  case (Cons e lh)
  obtain l hs where e: "e = (l, hs)" by (cases e)
  obtain s m d where st: "st = (s, m, d)" by (metis prod_cases3)
  show ?case
  proof (cases "process_level up regex keyword hs")
    case (Inl x)
    then have "x = err" using Cons.prems by (simp add: e st level_step_eq)
    then show ?thesis using Inl process_level_error by blast
  next
    case (Inr r)
    obtain tot ms dbg where r: "r = (tot, ms, dbg)" by (metis prod_cases3)
    show ?thesis using Inr Cons.prems Cons.IH by (simp add: e st r level_step_eq)
  qed
qed

lemma search_raises_with_loop:
  "search_keyword_in_hrefs up lh keyword = Inl err \<longleftrightarrow>
   fold_err (level_step up (AtBoundary # map Literal keyword @ [AtBoundary]) keyword) lh ([], [], []) = Inl err"
proof (cases "fold_err (level_step up (AtBoundary # map Literal keyword @ [AtBoundary]) keyword) lh ([], [], [])")
  case (Inl e)
  then show ?thesis
    unfolding search_keyword_in_hrefs_def keyword_regex_items by (simp del: list.map)
next
  case (Inr st)
  have "\<not> isl (search_keyword_in_hrefs up lh keyword)"
  proof (cases "fst st = []")
    case True
    then show ?thesis
      unfolding search_keyword_in_hrefs_def keyword_regex_items using Inr by (simp del: list.map)
  next
    case False
    then obtain first rest where "sorted_desc (\<lambda>x. keyword_ratio (snd x)) (fst st) = first # rest"
      using sorted_desc_nonempty [OF False] by (meson list.exhaust)
    then show ?thesis
      unfolding search_keyword_in_hrefs_def keyword_regex_items using Inr False
      by (simp add: Let_def del: list.map)
  qed
  then show ?thesis using Inr by (auto simp: isl_def)
qed

lemma update_entries: "e \<in> set (AList.update k v al) \<Longrightarrow> e = (k, v) \<or> e \<in> set al"
  by (induction al) (auto split: if_splits)

lemma level_fold_debug_origin:
  assumes "fold_err (level_step up regex keyword) lh (st, ma, db) = Inr (st', ma', db')"
    and "(l, d) \<in> set db'"
  shows "(l, d) \<in> set db \<or>
         (\<exists>hs tot m. (l, hs) \<in> set lh \<and> process_level up regex keyword hs = Inr (tot, m, d))"
  using assms
proof (induction lh arbitrary: st ma db)
  case Nil
  then show ?case by simp
next
  case (Cons e lh)
  obtain l0 hs0 where e: "e = (l0, hs0)" by (cases e)
  from Cons.prems(1) obtain tot m d0 where pl: "process_level up regex keyword hs0 = Inr (tot, m, d0)"
    by (auto simp: e level_step_eq split: sum.splits)
  let ?st1 = "if tot > 0
               then AList.update l0 \<lparr>total_unique_urls = tot, matching_urls = length m,
                                     keyword_ratio = of_nat (length m) / of_nat tot\<rparr> st
               else st"
  let ?ma1 = "if tot > 0 \<and> m \<noteq> [] then AList.update l0 m ma else ma"
  from Cons.prems(1) pl have rest:
    "fold_err (level_step up regex keyword) lh (?st1, ?ma1, AList.update l0 d0 db) = Inr (st', ma', db')"
    by (simp add: e level_step_eq)
  from Cons.IH [OF rest Cons.prems(2)] show ?case
  proof
    assume "(l, d) \<in> set (AList.update l0 d0 db)"
    then have "(l, d) = (l0, d0) \<or> (l, d) \<in> set db" by (rule update_entries)
    then show ?thesis using pl by (auto simp: e)
  next
    assume "\<exists>hs tot m. (l, hs) \<in> set lh \<and> process_level up regex keyword hs = Inr (tot, m, d)"
    then show ?thesis by auto
  qed
qed

lemma collect_write_cases:
  assumes "w \<in> set (List.map_filter (collect_write up) hrefs)"
  shows "snd w = social_reason \<or> (\<exists>p. snd w = anchor_query_reason p)"
proof -
  from assms obtain h where "h \<in> set hrefs" "collect_write up h = Some w"
    by (auto simp: in_map_filter)
  then show ?thesis
    by (auto simp: collect_write_def split: if_splits sum.splits)
qed

lemma logged_reason_kinds:
  assumes "process_level up regex keyword hrefs = Inr (tot, m, d)"
    and "map_of (skipped d) url = Some reason"
  shows "reason = social_reason \<or> (\<exists>p. reason = anchor_query_reason p) \<or>
         reason = not_in_path_reason keyword \<or> reason = entire_path_reason keyword"
proof -
  have "map_of (rev (skip_writes up regex keyword hrefs)) url = Some reason"
    using process_level_log [OF assms(1)] assms(2) by (simp add: write_all_lookup)
  then have "(url, reason) \<in> set (skip_writes up regex keyword hrefs)"
    using map_of_SomeD by fastforce
  then have "(url, reason) \<in> set (List.map_filter (collect_write up) hrefs) \<or>
             (url, reason) \<in> set (List.map_filter (match_write up regex keyword) (candidate_pool up hrefs))"
    by (simp add: skip_writes_def)
  then show ?thesis
    using collect_write_cases [of "(url, reason)" up hrefs]
      match_write_cases [of "(url, reason)" up regex keyword "candidate_pool up hrefs"]
    by auto
qed

lemma result_reason_kinds:
  assumes "search_keyword_in_hrefs up level_hrefs keyword = Inr (Some r)"
    and "(level, dbg) \<in> set (debug_infos r)"
    and "map_of (skipped dbg) url = Some reason"
  shows "reason = social_reason \<or> (\<exists>p. reason = anchor_query_reason p) \<or>
         reason = not_in_path_reason keyword \<or> reason = entire_path_reason keyword"
proof -
  from assms(1) obtain st ma db where
    f: "fold_err (level_step up (AtBoundary # map Literal keyword @ [AtBoundary]) keyword) level_hrefs
          ([], [], []) = Inr (st, ma, db)"
    and r: "debug_infos r = db"
    by (elim search_result_cases) blast
  from level_fold_debug_origin [OF f] assms(2) r obtain hs tot m where
    "process_level up (AtBoundary # map Literal keyword @ [AtBoundary]) keyword hs = Inr (tot, m, dbg)"
    by fastforce
  from logged_reason_kinds [OF this assms(3)] show ?thesis .
qed

text \<open>
  Claim C2, as the code has it.  The search has no handler around the parser.  On a
  level that holds the link \<^verbatim>\<open>http://[bad\<close> between two good links, the parser raises
  \<^verbatim>\<open>ValueError\<close> and so does the search: nothing is logged and nothing is returned.
\<close>

theorem parse_failure_counterexample:
  "search_keyword_in_hrefs urlparse_any bad_levels ''fire'' = Inl ValueError"
  by code_simp

text \<open>
  Claim C2, amended.  The search raises exactly when some level holds a link that is
  no sharing link and whose URL the parser rejects, or a candidate whose normalized
  URL the parser rejects; the error is the one that the parser raised.  On every other
  input it returns.  No URL is ever logged with a parse-failure reason: every reason
  in the log of a result is the sharing reason, a fragment or query reason, or one of
  the two keyword reasons.
\<close>

theorem unparsable_url_raises:
  "isl (search_keyword_in_hrefs up level_hrefs keyword) =
     (\<exists>e \<in> set level_hrefs.
        (\<exists>h \<in> set (snd e). parse_fails up h) \<or>
        (\<exists>item \<in> set (candidate_pool up (snd e)). isl (up (fst item)))) \<and>
   (\<forall>err. search_keyword_in_hrefs up level_hrefs keyword = Inl err \<longrightarrow> (\<exists>u. up u = Inl err)) \<and>
   (\<forall>r level dbg url reason.
      search_keyword_in_hrefs up level_hrefs keyword = Inr (Some r) \<and>
      (level, dbg) \<in> set (debug_infos r) \<and> map_of (skipped dbg) url = Some reason \<longrightarrow>
      reason = social_reason \<or> (\<exists>p. reason = anchor_query_reason p) \<or>
      reason = not_in_path_reason keyword \<or> reason = entire_path_reason keyword)"
proof -
  let ?R = "AtBoundary # map Literal keyword @ [AtBoundary]"
  have "isl (search_keyword_in_hrefs up level_hrefs keyword) =
        isl (fold_err (level_step up ?R keyword) level_hrefs ([], [], []))"
    using search_raises_with_loop [of up level_hrefs keyword] by (auto simp: isl_def)
  then have a: "isl (search_keyword_in_hrefs up level_hrefs keyword) =
     (\<exists>e \<in> set level_hrefs.
        (\<exists>h \<in> set (snd e). parse_fails up h) \<or>
        (\<exists>item \<in> set (candidate_pool up (snd e)). isl (up (fst item))))"
    by (simp add: level_fold_raises process_level_raises)
  have b: "\<forall>err. search_keyword_in_hrefs up level_hrefs keyword = Inl err \<longrightarrow> (\<exists>u. up u = Inl err)"
    using search_raises_with_loop level_fold_error by blast
  have c: "\<forall>r level dbg url reason.
      search_keyword_in_hrefs up level_hrefs keyword = Inr (Some r) \<and>
      (level, dbg) \<in> set (debug_infos r) \<and> map_of (skipped dbg) url = Some reason \<longrightarrow>
      reason = social_reason \<or> (\<exists>p. reason = anchor_query_reason p) \<or>
      reason = not_in_path_reason keyword \<or> reason = entire_path_reason keyword"
    using result_reason_kinds by blast
  show ?thesis using a b c by (intro conjI)
qed

lemma bad_levels_raises: "search_keyword_in_hrefs urlparse_any bad_levels ''fire'' = Inl ValueError"
  by code_simp

lemma bad_levels_fails: "parse_fails urlparse_any (anchor ''http://[bad'' ''Bad'')"
  by code_simp

lemma tie_levels_ok: "\<not> isl (search_keyword_in_hrefs urlparse_any tie_levels ''fire'')"
  by code_simp

theorem unparsable_url_raises_witness:
  "isl (search_keyword_in_hrefs urlparse_any bad_levels ''fire'') \<and>
   (\<exists>e \<in> set bad_levels. \<exists>h \<in> set (snd e). parse_fails urlparse_any h) \<and>
   (\<exists>u. urlparse_any u = Inl ValueError) \<and>
   \<not> isl (search_keyword_in_hrefs urlparse_any tie_levels ''fire'') \<and>
   \<not> (\<exists>e \<in> set tie_levels.
        (\<exists>h \<in> set (snd e). parse_fails urlparse_any h) \<or>
        (\<exists>item \<in> set (candidate_pool urlparse_any (snd e)). isl (urlparse_any (fst item))))"
proof -
  have f: "\<exists>e \<in> set bad_levels. \<exists>h \<in> set (snd e). parse_fails urlparse_any h"
    using bad_levels_fails by (simp add: bad_levels_def)
  note t1 = unparsable_url_raises [of urlparse_any bad_levels "''fire''"]
  note t2 = unparsable_url_raises [of urlparse_any tie_levels "''fire''"]
  have a: "isl (search_keyword_in_hrefs urlparse_any bad_levels ''fire'')"
    using t1 [THEN conjunct1] f by blast
  have b: "\<exists>u. urlparse_any u = Inl ValueError"
    using t1 [THEN conjunct2, THEN conjunct1] bad_levels_raises by blast
  have c: "\<not> (\<exists>e \<in> set tie_levels.
        (\<exists>h \<in> set (snd e). parse_fails urlparse_any h) \<or>
        (\<exists>item \<in> set (candidate_pool urlparse_any (snd e)). isl (urlparse_any (fst item))))"
    using t2 [THEN conjunct1] tie_levels_ok by blast
  show ?thesis by (intro conjI a f b tie_levels_ok c)
qed

section \<open>Levels without candidates\<close>

lemma level_fold_stats_empty:
  assumes "fold_err (level_step up regex keyword) lh (st, ma, db) = Inr (st', ma', db')"
  shows "(st' = []) = (st = [] \<and> (\<forall>e \<in> set lh. candidate_pool up (snd e) = []))"
  using assms
proof (induction lh arbitrary: st ma db)
  case Nil
  then show ?case by simp
next
  case (Cons e lh)
  obtain l hs where e: "e = (l, hs)" by (cases e)
  from Cons.prems obtain tot m d where pl: "process_level up regex keyword hs = Inr (tot, m, d)"
    by (auto simp: e level_step_eq split: sum.splits)
  note pool = process_level_pool(1) [OF pl]
  let ?st1 = "if tot > 0
               then AList.update l \<lparr>total_unique_urls = tot, matching_urls = length m,
                                     keyword_ratio = of_nat (length m) / of_nat tot\<rparr> st
               else st"
  let ?ma1 = "if tot > 0 \<and> m \<noteq> [] then AList.update l m ma else ma"
  from Cons.prems pl have rest:
    "fold_err (level_step up regex keyword) lh (?st1, ?ma1, AList.update l d db) = Inr (st', ma', db')"
    by (simp add: e level_step_eq)
  have upd: "\<And>v. AList.update l v st \<noteq> []"
    by (cases st) auto
  have "(?st1 = []) = (st = [] \<and> candidate_pool up hs = [])"
    using pool upd by auto
  with Cons.IH [OF rest] show ?case by (auto simp: e)
qed

lemma search_raises_iff:
  "isl (search_keyword_in_hrefs up level_hrefs keyword) =
     (\<exists>e \<in> set level_hrefs.
        (\<exists>h \<in> set (snd e). parse_fails up h) \<or>
        (\<exists>item \<in> set (candidate_pool up (snd e)). isl (up (fst item))))"
proof -
  let ?R = "AtBoundary # map Literal keyword @ [AtBoundary]"
  have "isl (search_keyword_in_hrefs up level_hrefs keyword) =
        isl (fold_err (level_step up ?R keyword) level_hrefs ([], [], []))"
    using search_raises_with_loop [of up level_hrefs keyword] by (auto simp: isl_def)
  then show ?thesis
    by (simp add: level_fold_raises process_level_raises)
qed

lemma search_absent_iff:
  "(search_keyword_in_hrefs up level_hrefs keyword = Inr None) =
     ((\<forall>e \<in> set level_hrefs. candidate_pool up (snd e) = []) \<and>
      (\<forall>e \<in> set level_hrefs. \<forall>h \<in> set (snd e). \<not> parse_fails up h))"
proof (cases "search_keyword_in_hrefs up level_hrefs keyword")
  case (Inl err)
  then have "isl (search_keyword_in_hrefs up level_hrefs keyword)" by simp
  then obtain e where e: "e \<in> set level_hrefs"
    and c: "(\<exists>h \<in> set (snd e). parse_fails up h) \<or>
            (\<exists>item \<in> set (candidate_pool up (snd e)). isl (up (fst item)))"
    unfolding search_raises_iff by blast
  have "\<not> ((\<forall>e \<in> set level_hrefs. candidate_pool up (snd e) = []) \<and>
      (\<forall>e \<in> set level_hrefs. \<forall>h \<in> set (snd e). \<not> parse_fails up h))"
  proof
    assume a: "(\<forall>e \<in> set level_hrefs. candidate_pool up (snd e) = []) \<and>
      (\<forall>e \<in> set level_hrefs. \<forall>h \<in> set (snd e). \<not> parse_fails up h)"
    then have "candidate_pool up (snd e) = []" and "\<forall>h \<in> set (snd e). \<not> parse_fails up h"
      using e by auto
    then show False using c by auto
  qed
  then show ?thesis using Inl by simp
next
  case (Inr res)
  then have "\<not> isl (search_keyword_in_hrefs up level_hrefs keyword)" by simp
  then have nf: "\<forall>e \<in> set level_hrefs. \<forall>h \<in> set (snd e). \<not> parse_fails up h"
    unfolding search_raises_iff by blast
  from Inr obtain st ma db where
    f: "fold_err (level_step up (AtBoundary # map Literal keyword @ [AtBoundary]) keyword) level_hrefs
          ([], [], []) = Inr (st, ma, db)"
    and none: "res = None \<longleftrightarrow> st = []"
    by (elim search_result_cases) blast
  have "(st = []) = (\<forall>e \<in> set level_hrefs. candidate_pool up (snd e) = [])"
    using level_fold_stats_empty [OF f] by simp
  then show ?thesis using Inr none nf by auto
qed

lemma search_result_iff:
  "(\<exists>r. search_keyword_in_hrefs up level_hrefs keyword = Inr (Some r)) =
     ((\<exists>e \<in> set level_hrefs. candidate_pool up (snd e) \<noteq> []) \<and>
      (\<forall>e \<in> set level_hrefs.
         (\<forall>h \<in> set (snd e). \<not> parse_fails up h) \<and>
         (\<forall>item \<in> set (candidate_pool up (snd e)). \<not> isl (up (fst item)))))"
proof (cases "search_keyword_in_hrefs up level_hrefs keyword")
  case (Inl err)
  then have "isl (search_keyword_in_hrefs up level_hrefs keyword)" by simp
  then have "\<not> (\<forall>e \<in> set level_hrefs.
         (\<forall>h \<in> set (snd e). \<not> parse_fails up h) \<and>
         (\<forall>item \<in> set (candidate_pool up (snd e)). \<not> isl (up (fst item))))"
    unfolding search_raises_iff by blast
  then show ?thesis using Inl by simp
next
  case (Inr res)
  then have "\<not> isl (search_keyword_in_hrefs up level_hrefs keyword)" by simp
  then have ok: "\<forall>e \<in> set level_hrefs.
         (\<forall>h \<in> set (snd e). \<not> parse_fails up h) \<and>
         (\<forall>item \<in> set (candidate_pool up (snd e)). \<not> isl (up (fst item)))"
    unfolding search_raises_iff by blast
  show ?thesis
  proof (cases res)
    case None
    then have "search_keyword_in_hrefs up level_hrefs keyword = Inr None" using Inr by simp
    then have "\<forall>e \<in> set level_hrefs. candidate_pool up (snd e) = []"
      by (simp add: search_absent_iff)
    then show ?thesis using Inr None by simp
  next
    case (Some r)
    then have "search_keyword_in_hrefs up level_hrefs keyword \<noteq> Inr None" using Inr by simp
    then have "\<not> ((\<forall>e \<in> set level_hrefs. candidate_pool up (snd e) = []) \<and>
      (\<forall>e \<in> set level_hrefs. \<forall>h \<in> set (snd e). \<not> parse_fails up h))"
      using search_absent_iff [of up level_hrefs keyword] by blast
    then have "\<exists>e \<in> set level_hrefs. candidate_pool up (snd e) \<noteq> []"
      using ok by blast
    then show ?thesis using Inr Some ok by simp
  qed
qed

lemma excluded_absent:
  "search_keyword_in_hrefs urlparse_any excluded_levels ''fire'' = Inr None"
  by code_simp

lemma unparsable_fails:
  "list_ex (\<lambda>e. list_ex (parse_fails urlparse_any) (snd e)) unparsable_levels"
  "list_all (\<lambda>e. candidate_pool urlparse_any (snd e) = []) unparsable_levels"
  by code_simp+

lemma partly_empty_result:
  "map_sum id (map_option (\<lambda>r. (target_level r,
       map (\<lambda>e. (fst e, total_unique_urls (snd e), matching_urls (snd e))) (level_stats r))))
     (search_keyword_in_hrefs urlparse_any partly_empty_levels ''fire'') =
   Inr (Some (1, [(1, 1, 0)]))"
  by code_simp

text \<open>
  Claim C8, as the code has it.  On the mapping whose only level holds the one link
  \<^verbatim>\<open>http://[bad\<close>, no level yields a candidate: the pool of every level is empty.  The
  search does not return \<^verbatim>\<open>None\<close> there: the parser raises \<^verbatim>\<open>ValueError\<close> on the
  link, nothing handles it, and the search raises.
\<close>

theorem raising_level_counterexample:
  "list_all (\<lambda>e. candidate_pool urlparse_any (snd e) = []) unparsable_levels \<and>
   search_keyword_in_hrefs urlparse_any unparsable_levels ''fire'' = Inl ValueError"
  by code_simp

text \<open>
  Claim C8, amended.  For every mapping and keyword, the search returns \<^verbatim>\<open>None\<close>
  exactly when the candidate pool of every level is empty and no level holds a link
  that is no sharing link and whose URL the parser rejects; with such a link it
  raises.  It returns a result exactly when some level has a candidate and the
  parser rejects neither the URL of a link that is no sharing link nor the normalized
  URL of a candidate.  In a result for a mapping in which no depth is a key twice, a
  level has no statistics entry exactly when its pool is empty, so an empty level is
  left out of the comparison instead of being scored 0, and every entry has a
  positive number of candidates.
\<close>

theorem no_candidate_no_score:
  "((search_keyword_in_hrefs up level_hrefs keyword = Inr None) =
      ((\<forall>e \<in> set level_hrefs. candidate_pool up (snd e) = []) \<and>
       (\<forall>e \<in> set level_hrefs. \<forall>h \<in> set (snd e). \<not> parse_fails up h))) \<and>
   ((\<exists>r. search_keyword_in_hrefs up level_hrefs keyword = Inr (Some r)) =
      ((\<exists>e \<in> set level_hrefs. candidate_pool up (snd e) \<noteq> []) \<and>
       (\<forall>e \<in> set level_hrefs.
          (\<forall>h \<in> set (snd e). \<not> parse_fails up h) \<and>
          (\<forall>item \<in> set (candidate_pool up (snd e)). \<not> isl (up (fst item)))))) \<and>
   (distinct (map fst level_hrefs) \<longrightarrow>
      (\<forall>r. search_keyword_in_hrefs up level_hrefs keyword = Inr (Some r) \<longrightarrow>
         (\<forall>e \<in> set level_hrefs.
            (map_of (level_stats r) (fst e) = None) = (candidate_pool up (snd e) = [])) \<and>
         (\<forall>e \<in> set (level_stats r). 0 < total_unique_urls (snd e))))"
proof (intro conjI impI allI)
  show "(search_keyword_in_hrefs up level_hrefs keyword = Inr None) =
      ((\<forall>e \<in> set level_hrefs. candidate_pool up (snd e) = []) \<and>
       (\<forall>e \<in> set level_hrefs. \<forall>h \<in> set (snd e). \<not> parse_fails up h))"
    by (rule search_absent_iff)
next
  show "(\<exists>r. search_keyword_in_hrefs up level_hrefs keyword = Inr (Some r)) =
      ((\<exists>e \<in> set level_hrefs. candidate_pool up (snd e) \<noteq> []) \<and>
       (\<forall>e \<in> set level_hrefs.
          (\<forall>h \<in> set (snd e). \<not> parse_fails up h) \<and>
          (\<forall>item \<in> set (candidate_pool up (snd e)). \<not> isl (up (fst item)))))"
    by (rule search_result_iff)
next
  fix r
  assume d: "distinct (map fst level_hrefs)"
    and r: "search_keyword_in_hrefs up level_hrefs keyword = Inr (Some r)"
  from returned_level_stats [OF r d]
  show "\<forall>e \<in> set level_hrefs.
            (map_of (level_stats r) (fst e) = None) = (candidate_pool up (snd e) = [])"
    by blast
next
  fix r
  assume d: "distinct (map fst level_hrefs)"
    and r: "search_keyword_in_hrefs up level_hrefs keyword = Inr (Some r)"
  from returned_level_stats [OF r d]
  show "\<forall>e \<in> set (level_stats r). 0 < total_unique_urls (snd e)"
    by blast
qed

theorem no_candidate_no_score_witness:
  "search_keyword_in_hrefs urlparse_any excluded_levels ''fire'' = Inr None \<and>
   list_all (\<lambda>e. candidate_pool urlparse_any (snd e) = []) excluded_levels \<and>
   list_all (\<lambda>e. list_all (\<lambda>h. \<not> parse_fails urlparse_any h) (snd e)) excluded_levels \<and>
   list_all (\<lambda>e. candidate_pool urlparse_any (snd e) = []) unparsable_levels \<and>
   list_ex (\<lambda>e. list_ex (parse_fails urlparse_any) (snd e)) unparsable_levels \<and>
   search_keyword_in_hrefs urlparse_any unparsable_levels ''fire'' \<noteq> Inr None \<and>
   distinct (map fst partly_empty_levels) \<and>
   (\<exists>r. search_keyword_in_hrefs urlparse_any partly_empty_levels ''fire'' = Inr (Some r) \<and>
        (target_level r,
         map (\<lambda>e. (fst e, total_unique_urls (snd e), matching_urls (snd e))) (level_stats r)) =
          (1, [(1, 1, 0)]) \<and>
        list_ex (\<lambda>e. candidate_pool urlparse_any (snd e) \<noteq> []) partly_empty_levels \<and>
        (\<forall>e \<in> set partly_empty_levels.
           (map_of (level_stats r) (fst e) = None) = (candidate_pool urlparse_any (snd e) = [])) \<and>
        (\<forall>e \<in> set (level_stats r). 0 < total_unique_urls (snd e)))"
proof -
  note t1 = no_candidate_no_score [of urlparse_any excluded_levels "''fire''"]
  note t2 = no_candidate_no_score [of urlparse_any unparsable_levels "''fire''"]
  note t3 = no_candidate_no_score [of urlparse_any partly_empty_levels "''fire''"]
  have a: "(\<forall>e \<in> set excluded_levels. candidate_pool urlparse_any (snd e) = []) \<and>
       (\<forall>e \<in> set excluded_levels. \<forall>h \<in> set (snd e). \<not> parse_fails urlparse_any h)"
    using t1 [THEN conjunct1] excluded_absent by blast
  have a1: "list_all (\<lambda>e. candidate_pool urlparse_any (snd e) = []) excluded_levels"
    using a by (simp add: list_all_iff)
  have a2: "list_all (\<lambda>e. list_all (\<lambda>h. \<not> parse_fails urlparse_any h) (snd e)) excluded_levels"
    using a by (simp add: list_all_iff)
  have "\<not> (\<forall>e \<in> set unparsable_levels. \<forall>h \<in> set (snd e). \<not> parse_fails urlparse_any h)"
    using unparsable_fails(1) by (simp add: list_ex_iff)
  then have b: "search_keyword_in_hrefs urlparse_any unparsable_levels ''fire'' \<noteq> Inr None"
    using t2 [THEN conjunct1] by blast
  have d: "distinct (map fst partly_empty_levels)" by (simp add: partly_empty_levels_def)
  from projection_result [OF partly_empty_result] obtain r where
    r: "search_keyword_in_hrefs urlparse_any partly_empty_levels ''fire'' = Inr (Some r)"
    and v: "(target_level r,
         map (\<lambda>e. (fst e, total_unique_urls (snd e), matching_urls (snd e))) (level_stats r)) =
          (1, [(1, 1, 0)])"
    by (elim exE conjE)
  have "\<exists>e \<in> set partly_empty_levels. candidate_pool urlparse_any (snd e) \<noteq> []"
    using t3 [THEN conjunct2, THEN conjunct1] r by blast
  then have c1: "list_ex (\<lambda>e. candidate_pool urlparse_any (snd e) \<noteq> []) partly_empty_levels"
    by (simp add: list_ex_iff)
  have c2: "(\<forall>e \<in> set partly_empty_levels.
           (map_of (level_stats r) (fst e) = None) = (candidate_pool urlparse_any (snd e) = [])) \<and>
        (\<forall>e \<in> set (level_stats r). 0 < total_unique_urls (snd e))"
    using t3 [THEN conjunct2, THEN conjunct2] d r by blast
  have "\<exists>r. search_keyword_in_hrefs urlparse_any partly_empty_levels ''fire'' = Inr (Some r) \<and>
        (target_level r,
         map (\<lambda>e. (fst e, total_unique_urls (snd e), matching_urls (snd e))) (level_stats r)) =
          (1, [(1, 1, 0)]) \<and>
        list_ex (\<lambda>e. candidate_pool urlparse_any (snd e) \<noteq> []) partly_empty_levels \<and>
        (\<forall>e \<in> set partly_empty_levels.
           (map_of (level_stats r) (fst e) = None) = (candidate_pool urlparse_any (snd e) = [])) \<and>
        (\<forall>e \<in> set (level_stats r). 0 < total_unique_urls (snd e))"
    by (rule exI [of _ r]) (intro conjI r v c1 c2 [THEN conjunct1] c2 [THEN conjunct2])
  then show ?thesis
    by (intro conjI excluded_absent a1 a2 unparsable_fails(2) unparsable_fails(1) b d)
qed

section \<open>The traversal of the snapshot\<close>

lemma visit_step:
  "visit urljoin base_url (n, l) lh =
     (case node_href urljoin base_url n of
        Some (Inl e) \<Rightarrow> Inl e
      | Some (Inr h) \<Rightarrow> Inr (append_level l h lh)
      | None \<Rightarrow> Inr lh)"
  by (simp add: visit_def split: option.splits sum.splits)

lemma bfs_loop_order:
  "bfs_loop urljoin base_url queue level_hrefs =
     fold_err (visit urljoin base_url) (bfs_order queue) level_hrefs"
proof (induction urljoin base_url queue level_hrefs rule: bfs_loop.induct)
  case (1 urljoin base_url level_hrefs)
  show ?case by simp
next
  case (2 urljoin base_url node level queue level_hrefs)
  show ?case
  proof (cases "node_href urljoin base_url node")
    case None
    then show ?thesis using 2 by (simp add: visit_step)
  next
    case (Some r)
    show ?thesis
    proof (cases r)
      case (Inl e)
      then show ?thesis using Some by (simp add: visit_step)
    next
      case (Inr h)
      then show ?thesis using Some 2 by (simp add: visit_step)
    qed
  qed
qed

lemma expand_append: "expand (p @ q) = expand p @ expand q"
  by (simp add: expand_def)

lemma expand_single: "expand [(node, level)] = map (\<lambda>child. (child, level + 1)) (children node)"
  by (simp add: expand_def)

lemma bfs_order_frontier: "bfs_order (q @ expand p) = q @ bfs_order (expand p @ expand q)"
proof (induction q arbitrary: p)
  case Nil
  show ?case by (simp add: expand_def)
next
  case (Cons x q)
  obtain node level where x: "x = (node, level)" by (cases x)
  have "bfs_order ((x # q) @ expand p) = x # bfs_order (q @ expand (p @ [x]))"
    by (simp add: x expand_append expand_single)
  also have "\<dots> = x # q @ bfs_order (expand (p @ [x]) @ expand q)"
    using Cons.IH [of "p @ [x]"] by simp
  also have "\<dots> = (x # q) @ bfs_order (expand p @ expand (x # q))"
    using expand_append [of "[x]" q] by (simp add: expand_append)
  finally show ?case .
qed

lemma bfs_order_level: "bfs_order q = q @ bfs_order (expand q)"
  using bfs_order_frontier [of q "[]"] by (simp add: expand_def)

lemma expand_depth:
  "expand (map (\<lambda>n. (n, d)) (nodes_at_depth d tree)) = map (\<lambda>n. (n, Suc d)) (nodes_at_depth (Suc d) tree)"
  by (simp add: expand_def map_concat comp_def)

lemma depth_empty_stays: "nodes_at_depth k tree = [] \<Longrightarrow> k \<le> d \<Longrightarrow> nodes_at_depth d tree = []"
proof (induction d)
  case 0
  then show ?case by simp
next
  case (Suc d)
  show ?case
  proof (cases "k = Suc d")
    case True
    then show ?thesis using Suc.prems by simp
  next
    case False
    then have "nodes_at_depth d tree = []" using Suc by simp
    then show ?thesis by simp
  qed
qed

lemma children_count:
  "sum_list (map node_count (children n)) < node_count n"
  by (cases n) simp

lemma depth_count_decreases:
  assumes "nodes_at_depth k tree \<noteq> []"
  shows "sum_list (map node_count (nodes_at_depth (Suc k) tree)) <
         sum_list (map node_count (nodes_at_depth k tree))"
proof -
  have "\<And>ns. ns \<noteq> [] \<Longrightarrow> sum_list (map node_count (concat (map children ns))) < sum_list (map node_count ns)"
  proof -
    fix ns :: "node list"
    assume "ns \<noteq> []"
    then show "sum_list (map node_count (concat (map children ns))) < sum_list (map node_count ns)"
    proof (induction ns)
      case Nil
      then show ?case by simp
    next
      case (Cons n ns)
      show ?case
      proof (cases "ns = []")
        case True
        then show ?thesis using children_count [of n] by simp
      next
        case False
        then show ?thesis using Cons.IH children_count [of n] by simp
      qed
    qed
  qed
  from this [OF assms] show ?thesis by simp
qed

lemma bfs_order_filter:
  "filter (\<lambda>x. snd x = d) (bfs_order (map (\<lambda>n. (n, k)) (nodes_at_depth k tree))) =
     (if k \<le> d then map (\<lambda>n. (n, d)) (nodes_at_depth d tree) else [])"
proof (induction "sum_list (map node_count (nodes_at_depth k tree))" arbitrary: k rule: less_induct)
  case less
  show ?case
  proof (cases "nodes_at_depth k tree = []")
    case True
    then show ?thesis using depth_empty_stays [OF True] by simp
  next
    case False
    let ?L = "map (\<lambda>n. (n, k)) (nodes_at_depth k tree)"
    have step: "bfs_order ?L = ?L @ bfs_order (map (\<lambda>n. (n, Suc k)) (nodes_at_depth (Suc k) tree))"
      using bfs_order_level [of ?L] by (simp only: expand_depth)
    have ih: "filter (\<lambda>x. snd x = d) (bfs_order (map (\<lambda>n. (n, Suc k)) (nodes_at_depth (Suc k) tree))) =
        (if Suc k \<le> d then map (\<lambda>n. (n, d)) (nodes_at_depth d tree) else [])"
      using less [OF depth_count_decreases [OF False]] .
    have here: "filter (\<lambda>x. snd x = d) ?L = (if k = d then ?L else [])"
      by (simp add: filter_map comp_def)
    show ?thesis
      unfolding step filter_append ih here by (cases "k = d") auto
  qed
qed

lemma bfs_order_root_filter:
  "filter (\<lambda>x. snd x = d) (bfs_order [(tree, 0)]) = map (\<lambda>n. (n, d)) (nodes_at_depth d tree)"
  using bfs_order_filter [of d 0 tree] by simp

lemma level_links_append:
  "level_links (append_level l h lh) d = (if d = l then level_links lh d @ [h] else level_links lh d)"
  by (simp add: level_links_def append_level_def AList.update_conv')

lemma append_level_keys: "fst ` set (append_level l h lh) = insert l (fst ` set lh)"
  by (simp add: append_level_def AList.dom_update)

lemma append_level_distinct: "distinct (map fst lh) \<Longrightarrow> distinct (map fst (append_level l h lh))"
  by (simp add: append_level_def AList.distinct_update)

lemma visit_fold_links:
  assumes "fold_err (visit urljoin base_url) order lh0 = Inr lh"
  shows "level_links lh d =
           level_links lh0 d @
           List.map_filter (link_of urljoin base_url) (map fst (filter (\<lambda>x. snd x = d) order))"
    and "\<forall>x \<in> set order. \<not> (\<exists>e. node_href urljoin base_url (fst x) = Some (Inl e))"
    and "distinct (map fst lh0) \<longrightarrow> distinct (map fst lh)"
    and "fst ` set lh =
           fst ` set lh0 \<union> {l. \<exists>n. (n, l) \<in> set order \<and> link_of urljoin base_url n \<noteq> None}"
  using assms
proof (induction order arbitrary: lh0)
  case Nil
  {
    case 1 then show ?case by simp
  next
    case 2 then show ?case by simp
  next
    case 3 then show ?case by simp
  next
    case 4 then show ?case by simp
  }
next
  case (Cons x xs)
  obtain n l where x: "x = (n, l)" by (cases x)
  {
    case 1
    show ?case
    proof (cases "node_href urljoin base_url n")
      case None
      then show ?thesis
        using 1 Cons.IH(1) [of lh0] by (simp add: x visit_step link_of_def)
    next
      case (Some r)
      show ?thesis
      proof (cases r)
        case (Inl e)
        then show ?thesis using 1 Some by (simp add: x visit_step)
      next
        case (Inr h)
        then show ?thesis
          using 1 Some Cons.IH(1) [of "append_level l h lh0"]
          by (simp add: x visit_step link_of_def level_links_append)
      qed
    qed
  next
    case 2
    show ?case
    proof (cases "node_href urljoin base_url n")
      case None
      then show ?thesis
        using 2 Cons.IH(2) [of lh0] by (simp add: x visit_step)
    next
      case (Some r)
      show ?thesis
      proof (cases r)
        case (Inl e)
        then show ?thesis using 2 Some by (simp add: x visit_step)
      next
        case (Inr h)
        then show ?thesis
          using 2 Some Cons.IH(2) [of "append_level l h lh0"]
          by (simp add: x visit_step)
      qed
    qed
  next
    case 3
    show ?case
    proof (cases "node_href urljoin base_url n")
      case None
      then show ?thesis
        using 3 Cons.IH(3) [of lh0] by (simp add: x visit_step)
    next
      case (Some r)
      show ?thesis
      proof (cases r)
        case (Inl e)
        then show ?thesis using 3 Some by (simp add: x visit_step)
      next
        case (Inr h)
        then show ?thesis
          using 3 Some Cons.IH(3) [of "append_level l h lh0"]
          by (simp add: x visit_step append_level_distinct)
      qed
    qed
  next
    case 4
    show ?case
    proof (cases "node_href urljoin base_url n")
      case None
      then show ?thesis
        using 4 Cons.IH(4) [of lh0] by (auto simp: x visit_step link_of_def)
    next
      case (Some r)
      show ?thesis
      proof (cases r)
        case (Inl e)
        then show ?thesis using 4 Some by (simp add: x visit_step)
      next
        case (Inr h)
        have lk: "link_of urljoin base_url n = Some h" using Some Inr by (simp add: link_of_def)
        have "fold_err (visit urljoin base_url) xs (append_level l h lh0) = Inr lh"
          using 4 Some Inr by (simp add: x visit_step)
        from Cons.IH(4) [OF this] have "fst ` set lh =
            insert l (fst ` set lh0) \<union>
            {l. \<exists>n. (n, l) \<in> set xs \<and> link_of urljoin base_url n \<noteq> None}"
          by (simp add: append_level_keys)
        moreover have "{l'. \<exists>n'. (n', l') \<in> set (x # xs) \<and> link_of urljoin base_url n' \<noteq> None} =
            insert l {l. \<exists>n. (n, l) \<in> set xs \<and> link_of urljoin base_url n \<noteq> None}"
          using lk by (auto simp: x)
        ultimately show ?thesis by auto
      qed
    qed
  }
qed

lemma visit_fold_raises:
  "isl (fold_err (visit urljoin base_url) order lh) =
     (\<exists>x \<in> set order. \<exists>e. node_href urljoin base_url (fst x) = Some (Inl e))"
proof (induction order arbitrary: lh)
  case Nil
  show ?case by simp
next
  case (Cons x xs)
  obtain n l where x: "x = (n, l)" by (cases x)
  show ?case
  proof (cases "node_href urljoin base_url n")
    case None
    then show ?thesis using Cons.IH by (simp add: x visit_step)
  next
    case (Some r)
    show ?thesis
    proof (cases r)
      case (Inl e)
      then show ?thesis using Some by (simp add: x visit_step)
    next
      case (Inr h)
      then show ?thesis using Some Cons.IH by (simp add: x visit_step)
    qed
  qed
qed

lemma bfs_order_member:
  "((n, l) \<in> set (bfs_order [(tree, 0)])) = (n \<in> set (nodes_at_depth l tree))"
proof -
  have "((n, l) \<in> set (bfs_order [(tree, 0)])) =
        ((n, l) \<in> set (filter (\<lambda>x. snd x = l) (bfs_order [(tree, 0)])))"
    by (simp del: bfs_order.simps)
  also have "\<dots> = ((n, l) \<in> set (map (\<lambda>n. (n, l)) (nodes_at_depth l tree)))"
    by (simp only: bfs_order_root_filter)
  also have "\<dots> = (n \<in> set (nodes_at_depth l tree))" by auto
  finally show ?thesis .
qed

lemma bfs_traverse_order:
  "bfs_traverse_dom urljoin tree base_url = fold_err (visit urljoin base_url) (bfs_order [(tree, 0)]) []"
  by (simp add: bfs_traverse_dom_def bfs_loop_order)

lemma bfs_level_links:
  assumes "bfs_traverse_dom urljoin tree base_url = Inr level_hrefs"
  shows "level_links level_hrefs d = List.map_filter (link_of urljoin base_url) (nodes_at_depth d tree)"
    and "\<forall>n \<in> set (nodes_at_depth d tree). \<not> (\<exists>e. node_href urljoin base_url n = Some (Inl e))"
proof -
  have f: "fold_err (visit urljoin base_url) (bfs_order [(tree, 0)]) [] = Inr level_hrefs"
    using assms by (simp add: bfs_traverse_order)
  have "level_links level_hrefs d =
      List.map_filter (link_of urljoin base_url)
        (map fst (filter (\<lambda>x. snd x = d) (bfs_order [(tree, 0)])))"
    using visit_fold_links(1) [OF f, of d] by (simp add: level_links_def del: bfs_order.simps)
  then show "level_links level_hrefs d = List.map_filter (link_of urljoin base_url) (nodes_at_depth d tree)"
    by (simp add: bfs_order_root_filter comp_def del: bfs_order.simps)
  show "\<forall>n \<in> set (nodes_at_depth d tree). \<not> (\<exists>e. node_href urljoin base_url n = Some (Inl e))"
    using visit_fold_links(2) [OF f] bfs_order_member [of _ d tree] by fastforce
qed

lemma map_filter_empty: "(List.map_filter f xs = []) = (\<forall>x \<in> set xs. f x = None)"
  by (induction xs) (auto simp: List.map_filter_simps split: option.splits)

lemma node_href_yields: "(node_href urljoin base_url n \<noteq> None) = yields_link n"
proof (cases "nodeType n = Some 1")
  case False
  then show ?thesis by (simp add: node_href_def yields_link_def)
next
  case True
  show ?thesis
  proof (cases "attributes n")
    case None
    then show ?thesis using True by (simp add: node_href_def yields_link_def)
  next
    case (Some attrs)
    define href where "href = get_str (map_of attrs ''href'')"
    define ok where "ok = (href \<noteq> [] \<and> \<not> startswith href ''#'' \<and> \<not> startswith href ''javascript:'' \<and>
        \<not> list_ex (\<lambda>ext. endswith (lower href) ext) image_extensions)"
    have a: "(node_href urljoin base_url n \<noteq> None) = ok"
      unfolding node_href_def ok_def href_def using True Some
      by (simp add: Let_def split: sum.splits)
    have b: "yields_link n = ok"
    proof (cases "map_of attrs ''href''")
      case None
      then show ?thesis
        unfolding yields_link_def ok_def href_def using True Some by (simp add: get_str_def)
    next
      case (Some v)
      then show ?thesis
        unfolding yields_link_def ok_def href_def image_extensions_def
        using True \<open>attributes n = Some attrs\<close> by (simp add: get_str_def)
    qed
    show ?thesis using a b by simp
  qed
qed

lemma section_anchor_dropped:
  assumes "attributes n = Some attrs" and "map_of attrs ''href'' = Some ''#section2''"
  shows "node_href urljoin base_url n = None"
proof -
  have "\<not> yields_link n"
    using assms by (simp add: yields_link_def)
  then show ?thesis using node_href_yields by blast
qed

lemma links_of_yielding:
  assumes "\<forall>n \<in> set ns. \<not> (\<exists>e. node_href urljoin base_url n = Some (Inl e))"
  shows "list_all2 (\<lambda>m h. node_href urljoin base_url m = Some (Inr h))
           (filter yields_link ns) (List.map_filter (link_of urljoin base_url) ns)"
  using assms
proof (induction ns)
  case Nil
  show ?case by simp
next
  case (Cons n ns)
  have ih: "list_all2 (\<lambda>m h. node_href urljoin base_url m = Some (Inr h))
           (filter yields_link ns) (List.map_filter (link_of urljoin base_url) ns)"
    using Cons by simp
  show ?case
  proof (cases "node_href urljoin base_url n")
    case None
    then have "\<not> yields_link n" using node_href_yields by blast
    moreover have "link_of urljoin base_url n = None" using None by (simp add: link_of_def)
    ultimately show ?thesis using ih by simp
  next
    case (Some r)
    then have y: "yields_link n" using node_href_yields [of urljoin base_url n] by simp
    from Some Cons.prems obtain h where h: "r = Inr h" by (cases r) auto
    have "link_of urljoin base_url n = Some h" using Some h by (simp add: link_of_def)
    then show ?thesis using ih y Some h by simp
  qed
qed

lemma sample_tree_links:
  "bfs_traverse_dom join_to_base sample_tree ''https://x.com'' = Inr sample_links"
  by code_simp

lemma sample_links_second:
  "level_links sample_links 2 = [anchor ''https://x.com/fire/report'' ''The report'']"
  by code_simp

lemma sample_depth_two:
  "nodes_at_depth 2 sample_tree =
     [link_node ''/fire/report'' ''  The   report '' [],
      Node (Some 3) None None None None [],
      link_node ''#section2'' ''Jump'' [],
      Node (Some 1) (Some ''LINK'') (Some [(''href'', ''/logo.PNG'')]) None None []]"
  by code_simp

text \<open>
  Claim C4.  The traversal is breadth first from the root at depth 0, and the
  children of a node are queued one level below it in their order.  When it returns,
  the list under a depth \<open>d\<close> holds exactly the link records of the nodes that are
  \<open>d\<close> parent hops below the root, in their order from left to right, whatever the
  sizes of the subtrees; a depth is a key of the mapping exactly when it has a
  record, and no depth is a key twice.  The traversal raises exactly when
  \<^verbatim>\<open>urljoin\<close> raises on some node of the tree, and returns otherwise.
\<close>

theorem bfs_levels_are_depths:
  "(bfs_traverse_dom urljoin tree base_url = Inr level_hrefs \<longrightarrow>
      distinct (map fst level_hrefs) \<and>
      (\<forall>d. level_links level_hrefs d =
            List.map_filter (link_of urljoin base_url) (nodes_at_depth d tree)) \<and>
      (\<forall>d. (d \<in> fst ` set level_hrefs) = (level_links level_hrefs d \<noteq> []))) \<and>
   (isl (bfs_traverse_dom urljoin tree base_url) =
      (\<exists>d. \<exists>n \<in> set (nodes_at_depth d tree). \<exists>e. node_href urljoin base_url n = Some (Inl e)))"
proof (intro conjI impI)
  assume a: "bfs_traverse_dom urljoin tree base_url = Inr level_hrefs"
  then have f: "fold_err (visit urljoin base_url) (bfs_order [(tree, 0)]) [] = Inr level_hrefs"
    by (simp add: bfs_traverse_order)
  show "distinct (map fst level_hrefs)"
    using visit_fold_links(3) [OF f] by simp
  show links: "\<forall>d. level_links level_hrefs d =
            List.map_filter (link_of urljoin base_url) (nodes_at_depth d tree)"
    using bfs_level_links(1) [OF a] by blast
  show "\<forall>d. (d \<in> fst ` set level_hrefs) = (level_links level_hrefs d \<noteq> [])"
  proof
    fix d
    have "(d \<in> fst ` set level_hrefs) =
          (\<exists>n. (n, d) \<in> set (bfs_order [(tree, 0)]) \<and> link_of urljoin base_url n \<noteq> None)"
      using visit_fold_links(4) [OF f] by (simp del: bfs_order.simps)
    also have "\<dots> = (\<exists>n \<in> set (nodes_at_depth d tree). link_of urljoin base_url n \<noteq> None)"
      by (auto simp: bfs_order_member simp del: bfs_order.simps)
    also have "\<dots> = (level_links level_hrefs d \<noteq> [])"
      using links by (simp add: map_filter_empty)
    finally show "(d \<in> fst ` set level_hrefs) = (level_links level_hrefs d \<noteq> [])" .
  qed
next
  have "isl (bfs_traverse_dom urljoin tree base_url) =
     (\<exists>x \<in> set (bfs_order [(tree, 0)]). \<exists>e. node_href urljoin base_url (fst x) = Some (Inl e))"
    by (simp add: bfs_traverse_order visit_fold_raises del: bfs_order.simps)
  also have "\<dots> = (\<exists>d. \<exists>n \<in> set (nodes_at_depth d tree). \<exists>e. node_href urljoin base_url n = Some (Inl e))"
    using bfs_order_member [of _ _ tree] by (metis fst_conv prod.collapse)
  finally show "isl (bfs_traverse_dom urljoin tree base_url) =
      (\<exists>d. \<exists>n \<in> set (nodes_at_depth d tree). \<exists>e. node_href urljoin base_url n = Some (Inl e))" .
qed

theorem bfs_levels_are_depths_witness:
  "bfs_traverse_dom join_to_base sample_tree ''https://x.com'' = Inr sample_links \<and>
   distinct (map fst sample_links) \<and>
   level_links sample_links 2 =
     List.map_filter (link_of join_to_base ''https://x.com'') (nodes_at_depth 2 sample_tree) \<and>
   level_links sample_links 2 = [anchor ''https://x.com/fire/report'' ''The report''] \<and>
   (2 \<in> fst ` set sample_links) = (level_links sample_links 2 \<noteq> []) \<and>
   \<not> isl (bfs_traverse_dom join_to_base sample_tree ''https://x.com'')"
proof -
  note t = bfs_levels_are_depths [of join_to_base sample_tree "''https://x.com''" sample_links]
  from t [THEN conjunct1] sample_tree_links have
    a: "distinct (map fst sample_links)"
    and b: "\<forall>d. level_links sample_links d =
            List.map_filter (link_of join_to_base ''https://x.com'') (nodes_at_depth d sample_tree)"
    and c: "\<forall>d. (d \<in> fst ` set sample_links) = (level_links sample_links d \<noteq> [])"
    by blast+
  have d: "\<not> isl (bfs_traverse_dom join_to_base sample_tree ''https://x.com'')"
    by (simp add: sample_tree_links)
  show ?thesis
    by (intro conjI sample_tree_links a b [rule_format] sample_links_second c [rule_format] d)
qed

lemma sample_nodes:
  "yields_link (link_node ''/fire'' ''Fire'' [])"
  "attributes (link_node ''#section2'' ''Jump'' []) = Some [(''href'', ''#section2'')]"
  "map_of [(''href'', ''#section2'')] ''href'' = Some ''#section2''"
  by code_simp+

text \<open>With no default scheme, the parser of \<open>urllib_urljoin\<close> is \<open>urlparse\<close>.\<close>

lemma split_scheme_or_empty: "split_scheme_or '''' url = split_scheme url"
  by (simp add: split_scheme_or_def split_scheme_def)

lemma urlparse_default_empty: "urlparse_default bracketed_ok url '''' = urlparse bracketed_ok url"
  by (simp add: urlparse_default_def urlparse_def strip_c0_def split_scheme_or_empty)

lemma node_href_raises_when_made:
  assumes "node_href urljoin base_url n \<noteq> None"
  shows "(\<exists>e. node_href urljoin base_url n = Some (Inl e)) = join_fails urljoin base_url n"
proof -
  from assms have ty: "nodeType n = Some 1"
    by (auto simp: node_href_def split: if_splits)
  from assms ty obtain attrs where at: "attributes n = Some attrs"
    by (cases "attributes n") (auto simp: node_href_def)
  define href where "href = get_str (map_of attrs ''href'')"
  define rel where "rel = (\<not> (startswith href ''http://'' \<or> startswith href ''https://'' \<or>
      startswith href ''//''))"
  have ok: "href \<noteq> [] \<and> \<not> startswith href ''#'' \<and> \<not> startswith href ''javascript:'' \<and>
        \<not> list_ex (\<lambda>ext. endswith (lower href) ext) image_extensions"
    using assms ty at unfolding node_href_def href_def
    by (auto simp: Let_def split: if_splits)
  have a: "(\<exists>e. node_href urljoin base_url n = Some (Inl e)) = (rel \<and> isl (urljoin base_url href))"
  proof (cases rel)
    case True
    show ?thesis
    proof (cases "urljoin base_url href")
      case (Inl e)
      then show ?thesis
        using ty at ok True unfolding node_href_def href_def rel_def
        by (simp add: Let_def)
    next
      case (Inr u)
      then show ?thesis
        using ty at ok True unfolding node_href_def href_def rel_def
        by (simp add: Let_def)
    qed
  next
    case False
    then show ?thesis
      using ty at ok unfolding node_href_def href_def rel_def
      by (simp add: Let_def)
  qed
  have b: "join_fails urljoin base_url n = (rel \<and> isl (urljoin base_url href))"
    using at unfolding join_fails_def href_def rel_def by simp
  show ?thesis using a b by simp
qed

lemma node_href_raises:
  "(\<exists>e. node_href urljoin base_url n = Some (Inl e)) =
     (yields_link n \<and> join_fails urljoin base_url n)"
proof (cases "node_href urljoin base_url n")
  case None
  then have "\<not> yields_link n" using node_href_yields by blast
  then show ?thesis using None by simp
next
  case (Some r)
  then have m: "node_href urljoin base_url n \<noteq> None" by simp
  then have "yields_link n" using node_href_yields by blast
  then show ?thesis using node_href_raises_when_made [OF m] by simp
qed

lemma node_href_record:
  "(\<exists>h. node_href urljoin base_url n = Some (Inr h)) =
     (yields_link n \<and> \<not> join_fails urljoin base_url n)"
proof (cases "node_href urljoin base_url n")
  case None
  then have "\<not> yields_link n" using node_href_yields by blast
  then show ?thesis using None by simp
next
  case (Some r)
  then have m: "node_href urljoin base_url n \<noteq> None" by simp
  then have y: "yields_link n" using node_href_yields by blast
  show ?thesis
  proof (cases r)
    case (Inl e)
    then have "\<exists>e. node_href urljoin base_url n = Some (Inl e)" using Some by simp
    then have "join_fails urljoin base_url n" by (simp add: node_href_raises)
    then show ?thesis using Some Inl by simp
  next
    case (Inr h)
    then have "\<not> (\<exists>e. node_href urljoin base_url n = Some (Inl e))" using Some by simp
    then have "\<not> join_fails urljoin base_url n" using y by (simp add: node_href_raises)
    then show ?thesis using Some Inr y by simp
  qed
qed

lemma bfs_traverse_raises:
  "isl (bfs_traverse_dom urljoin tree base_url) =
     (\<exists>d. \<exists>m \<in> set (nodes_at_depth d tree). yields_link m \<and> join_fails urljoin base_url m)"
proof -
  have "isl (bfs_traverse_dom urljoin tree base_url) =
     (\<exists>x \<in> set (bfs_order [(tree, 0)]). \<exists>e. node_href urljoin base_url (fst x) = Some (Inl e))"
    by (simp add: bfs_traverse_order visit_fold_raises del: bfs_order.simps)
  also have "\<dots> = (\<exists>d. \<exists>m \<in> set (nodes_at_depth d tree). \<exists>e. node_href urljoin base_url m = Some (Inl e))"
    using bfs_order_member [of _ _ tree] by (metis fst_conv prod.collapse)
  also have "\<dots> = (\<exists>d. \<exists>m \<in> set (nodes_at_depth d tree). yields_link m \<and> join_fails urljoin base_url m)"
    by (simp only: node_href_raises)
  finally show ?thesis .
qed

lemma unjoinable_nodes:
  "link_node ''/ok'' ''Ok'' [] \<in> set (nodes_at_depth 1 unjoinable_tree)"
  "yields_link (link_node ''/ok'' ''Ok'' [])"
  "yields_link (link_node ''ftp://[bad'' ''Bad'' [])"
  "join_fails urljoin_any ''https://x.com'' (link_node ''ftp://[bad'' ''Bad'' [])"
  "link_node ''ftp://[bad'' ''Bad'' [] \<in> set (nodes_at_depth 1 unjoinable_tree)"
  by code_simp+

lemma sample_tree_joined:
  "bfs_traverse_dom urljoin_any sample_tree ''https://x.com'' = Inr sample_links"
  by code_simp

lemma fire_node_joins:
  "\<not> join_fails urljoin_any ''https://x.com'' (link_node ''/fire'' ''Fire'' [])"
  by code_simp

text \<open>
  Claim C5, as the code has it.  The traversal has no handler around \<^verbatim>\<open>urljoin\<close>.
  In a tree whose root has the two children with \<^verbatim>\<open>href\<close> \<^verbatim>\<open>/ok\<close> and \<^verbatim>\<open>ftp://[bad\<close>,
  the first child is an element node that meets the condition on its \<^verbatim>\<open>href\<close>, yet
  it gets no link record: on the second child \<^verbatim>\<open>urljoin\<close> raises \<^verbatim>\<open>ValueError\<close>, and so
  does the traversal, which returns no record at all.
\<close>

theorem record_lost_counterexample:
  "link_node ''/ok'' ''Ok'' [] \<in> set (nodes_at_depth 1 unjoinable_tree) \<and>
   yields_link (link_node ''/ok'' ''Ok'' []) \<and>
   bfs_traverse_dom urljoin_any unjoinable_tree ''https://x.com'' = Inl ValueError"
  by code_simp

text \<open>
  Claim C5, amended.  A node gives a link record exactly when it is an element node
  with an attribute \<^verbatim>\<open>href\<close> whose value is not empty, starts neither with \<^verbatim>\<open>#\<close> nor
  with \<^verbatim>\<open>javascript:\<close>, and in lower case ends in none of the eight image extensions,
  and \<^verbatim>\<open>urljoin\<close> does not raise on that value; a node that meets the condition and on
  which \<^verbatim>\<open>urljoin\<close> raises gives the error instead.  A node whose \<^verbatim>\<open>href\<close> is
  \<^verbatim>\<open>#section2\<close> gives neither.  The traversal raises exactly when the tree has a node
  that meets the condition and on which \<^verbatim>\<open>urljoin\<close> raises, and then it returns no
  record for any node.  On every other tree it returns, and the records under a depth
  are, one for one and in order, those of the nodes at that depth that meet the
  condition, so no other node reaches the ranker.
\<close>

theorem link_record_unless_join_raises:
  "((\<exists>h. node_href urljoin base_url n = Some (Inr h)) =
      (yields_link n \<and> \<not> join_fails urljoin base_url n)) \<and>
   ((\<exists>e. node_href urljoin base_url n = Some (Inl e)) =
      (yields_link n \<and> join_fails urljoin base_url n)) \<and>
   (attributes n = Some attrs \<and> map_of attrs ''href'' = Some ''#section2'' \<longrightarrow>
      node_href urljoin base_url n = None) \<and>
   (isl (bfs_traverse_dom urljoin tree base_url) =
      (\<exists>d. \<exists>m \<in> set (nodes_at_depth d tree). yields_link m \<and> join_fails urljoin base_url m)) \<and>
   (\<not> (\<exists>d. \<exists>m \<in> set (nodes_at_depth d tree). yields_link m \<and> join_fails urljoin base_url m) \<longrightarrow>
      (\<exists>level_hrefs. bfs_traverse_dom urljoin tree base_url = Inr level_hrefs \<and>
         (\<forall>d. list_all2 (\<lambda>m h. node_href urljoin base_url m = Some (Inr h))
                (filter yields_link (nodes_at_depth d tree)) (level_links level_hrefs d))))"
proof (intro conjI impI)
  show "(\<exists>h. node_href urljoin base_url n = Some (Inr h)) =
      (yields_link n \<and> \<not> join_fails urljoin base_url n)"
    by (rule node_href_record)
next
  show "(\<exists>e. node_href urljoin base_url n = Some (Inl e)) =
      (yields_link n \<and> join_fails urljoin base_url n)"
    by (rule node_href_raises)
next
  assume "attributes n = Some attrs \<and> map_of attrs ''href'' = Some ''#section2''"
  then show "node_href urljoin base_url n = None"
    using section_anchor_dropped by blast
next
  show "isl (bfs_traverse_dom urljoin tree base_url) =
      (\<exists>d. \<exists>m \<in> set (nodes_at_depth d tree). yields_link m \<and> join_fails urljoin base_url m)"
    by (rule bfs_traverse_raises)
next
  assume "\<not> (\<exists>d. \<exists>m \<in> set (nodes_at_depth d tree). yields_link m \<and> join_fails urljoin base_url m)"
  then have "\<not> isl (bfs_traverse_dom urljoin tree base_url)"
    using bfs_traverse_raises [of urljoin tree base_url] by blast
  then obtain level_hrefs where a: "bfs_traverse_dom urljoin tree base_url = Inr level_hrefs"
    by (cases "bfs_traverse_dom urljoin tree base_url") auto
  have "\<forall>d. list_all2 (\<lambda>m h. node_href urljoin base_url m = Some (Inr h))
             (filter yields_link (nodes_at_depth d tree)) (level_links level_hrefs d)"
  proof
    fix d
    show "list_all2 (\<lambda>m h. node_href urljoin base_url m = Some (Inr h))
             (filter yields_link (nodes_at_depth d tree)) (level_links level_hrefs d)"
      unfolding bfs_level_links(1) [OF a]
      using links_of_yielding [OF bfs_level_links(2) [OF a]] .
  qed
  then show "\<exists>level_hrefs. bfs_traverse_dom urljoin tree base_url = Inr level_hrefs \<and>
         (\<forall>d. list_all2 (\<lambda>m h. node_href urljoin base_url m = Some (Inr h))
                (filter yields_link (nodes_at_depth d tree)) (level_links level_hrefs d))"
    using a by blast
qed

theorem link_record_unless_join_raises_witness:
  "yields_link (link_node ''/fire'' ''Fire'' []) \<and>
   \<not> join_fails urljoin_any ''https://x.com'' (link_node ''/fire'' ''Fire'' []) \<and>
   (\<exists>h. node_href urljoin_any ''https://x.com'' (link_node ''/fire'' ''Fire'' []) = Some (Inr h)) \<and>
   yields_link (link_node ''ftp://[bad'' ''Bad'' []) \<and>
   join_fails urljoin_any ''https://x.com'' (link_node ''ftp://[bad'' ''Bad'' []) \<and>
   (\<exists>e. node_href urljoin_any ''https://x.com'' (link_node ''ftp://[bad'' ''Bad'' []) = Some (Inl e)) \<and>
   attributes (link_node ''#section2'' ''Jump'' []) = Some [(''href'', ''#section2'')] \<and>
   map_of [(''href'', ''#section2'')] ''href'' = Some ''#section2'' \<and>
   node_href urljoin_any ''https://x.com'' (link_node ''#section2'' ''Jump'' []) = None \<and>
   link_node ''ftp://[bad'' ''Bad'' [] \<in> set (nodes_at_depth 1 unjoinable_tree) \<and>
   isl (bfs_traverse_dom urljoin_any unjoinable_tree ''https://x.com'') \<and>
   bfs_traverse_dom urljoin_any sample_tree ''https://x.com'' = Inr sample_links \<and>
   \<not> (\<exists>d. \<exists>m \<in> set (nodes_at_depth d sample_tree).
          yields_link m \<and> join_fails urljoin_any ''https://x.com'' m) \<and>
   list_all2 (\<lambda>m h. node_href urljoin_any ''https://x.com'' m = Some (Inr h))
     (filter yields_link (nodes_at_depth 2 sample_tree)) (level_links sample_links 2)"
proof -
  note t1 = link_record_unless_join_raises [of urljoin_any "''https://x.com''"
      "link_node ''/fire'' ''Fire'' []" "[]" sample_tree]
  note t2 = link_record_unless_join_raises [of urljoin_any "''https://x.com''"
      "link_node ''ftp://[bad'' ''Bad'' []" "[]" unjoinable_tree]
  note t3 = link_record_unless_join_raises [of urljoin_any "''https://x.com''"
      "link_node ''#section2'' ''Jump'' []" "[(''href'', ''#section2'')]" sample_tree]
  have a: "\<exists>h. node_href urljoin_any ''https://x.com'' (link_node ''/fire'' ''Fire'' []) = Some (Inr h)"
    using t1 [THEN conjunct1] sample_nodes(1) fire_node_joins by blast
  have b: "\<exists>e. node_href urljoin_any ''https://x.com'' (link_node ''ftp://[bad'' ''Bad'' []) = Some (Inl e)"
    using t2 [THEN conjunct2, THEN conjunct1] unjoinable_nodes(3,4) by blast
  have c: "node_href urljoin_any ''https://x.com'' (link_node ''#section2'' ''Jump'' []) = None"
    using t3 [THEN conjunct2, THEN conjunct2, THEN conjunct1] sample_nodes(2,3) by blast
  have d: "isl (bfs_traverse_dom urljoin_any unjoinable_tree ''https://x.com'')"
    using t2 [THEN conjunct2, THEN conjunct2, THEN conjunct2, THEN conjunct1]
      unjoinable_nodes(3,4,5) by blast
  have "\<not> isl (bfs_traverse_dom urljoin_any sample_tree ''https://x.com'')"
    by (simp add: sample_tree_joined)
  then have e: "\<not> (\<exists>d. \<exists>m \<in> set (nodes_at_depth d sample_tree).
          yields_link m \<and> join_fails urljoin_any ''https://x.com'' m)"
    using t1 [THEN conjunct2, THEN conjunct2, THEN conjunct2, THEN conjunct1] by blast
  from t1 [THEN conjunct2, THEN conjunct2, THEN conjunct2, THEN conjunct2] e
  obtain level_hrefs where
    l1: "bfs_traverse_dom urljoin_any sample_tree ''https://x.com'' = Inr level_hrefs"
    and l2: "\<forall>d. list_all2 (\<lambda>m h. node_href urljoin_any ''https://x.com'' m = Some (Inr h))
                (filter yields_link (nodes_at_depth d sample_tree)) (level_links level_hrefs d)"
    by blast
  from l1 have "level_hrefs = sample_links" by (simp add: sample_tree_joined)
  then have f: "list_all2 (\<lambda>m h. node_href urljoin_any ''https://x.com'' m = Some (Inr h))
     (filter yields_link (nodes_at_depth 2 sample_tree)) (level_links sample_links 2)"
    using l2 by blast
  show ?thesis
    by (intro conjI sample_nodes(1) fire_node_joins a unjoinable_nodes(3) unjoinable_nodes(4) b
        sample_nodes(2) sample_nodes(3) c unjoinable_nodes(5) d sample_tree_joined e f)
qed

end
